theory Spec2Isabelle
  imports Main "HOL-Library.Word" "HOL-Library.Signed_Division" "HOL-Library.Multiset"
begin

section \<open>Thread budget of the shuffle engine\<close>

text \<open>
  \<^verbatim>\<open>ShuffleTableByOffsetLists\<close> (and both routers) compute
  \<^verbatim>\<open>int thread_num = (std::thread::hardware_concurrency() + comm_spec.local_num() - 1)
                    / comm_spec.local_num();\<close>
  \<^verbatim>\<open>hardware_concurrency()\<close> is an \<^verbatim>\<open>unsigned int\<close> and \<^verbatim>\<open>local_num()\<close> an \<^verbatim>\<open>int\<close>, so
  the whole expression is evaluated on 32-bit unsigned values (the \<^verbatim>\<open>int\<close> is converted)
  and the quotient is then stored in an \<^verbatim>\<open>int\<close>. Both operands are 32-bit words here;
  \<open>local_num\<close> is the bit pattern of the \<^verbatim>\<open>int\<close>. Division by zero is undefined in C++
  (and \<open>0\<close> in HOL): the theorems below assume \<open>local_num\<close> is positive.
\<close>

definition thread_num :: "32 word \<Rightarrow> 32 word \<Rightarrow> int" where
  "thread_num hardware_concurrency local_num =
     sint ((hardware_concurrency + local_num - 1) div local_num)"

text \<open>
  \<^verbatim>\<open>int deserialize_thread_num = std::max(1, (thread_num - 2) / 2);\<close>
  \<^verbatim>\<open>int serialize_thread_num = std::max(1, thread_num - 2 - deserialize_thread_num);\<close>
  C++ integer division truncates towards zero: \<open>sdiv\<close>.
\<close>

definition deserialize_thread_num :: "int \<Rightarrow> int" where
  "deserialize_thread_num T = max 1 ((T - 2) sdiv 2)"

definition serialize_thread_num :: "int \<Rightarrow> int" where
  "serialize_thread_num T = max 1 (T - 2 - deserialize_thread_num T)"

section \<open>Errors\<close>

text \<open>
  The two recoverable error codes the source returns through \<^verbatim>\<open>RETURN_GS_ERROR\<close>, the
  process abort of \<^verbatim>\<open>LOG(FATAL)\<close> and of a failed \<^verbatim>\<open>ARROW_CHECK_OK\<close> (\<open>Fatal\<close>), and
  undefined behaviour of the C++ (\<open>Undefined\<close>: a read past the end of an archive or of
  an array, a call through the null pointer of a failed \<^verbatim>\<open>dynamic_cast\<close>, a loop whose
  counter never meets its bound). \<open>Blocked\<close> is a receive that waits for a message no peer
  sends.
\<close>

datatype error = kArrowError | kInvalidOperationError | Fatal | Undefined | Blocked

section \<open>The archive of bytes\<close>

text \<open>
  \<^verbatim>\<open>grape::InArchive\<close> is a growing byte buffer, \<^verbatim>\<open>grape::OutArchive\<close> a byte buffer
  read from the front. \<^verbatim>\<open>arc << val\<close> for a plain value copies its \<^verbatim>\<open>sizeof(T)\<close> bytes to
  the end of the buffer, \<^verbatim>\<open>arc >> val\<close> copies \<^verbatim>\<open>sizeof(T)\<close> bytes back and advances.
  A value is held as its bit pattern, a natural number below \<open>256 ^ sizeof T\<close>; the byte
  order is little-endian (the platform's). \<^verbatim>\<open>OutArchive\<close> does not check its bounds:
  reading more bytes than are left is undefined behaviour.
\<close>

type_synonym byte = "8 word"

datatype ctype = double | float | int64_t | int32_t | uint64_t | uint32_t

fun sizeof :: "ctype \<Rightarrow> nat" where
  "sizeof double = 8"
| "sizeof float = 4"
| "sizeof int64_t = 8"
| "sizeof int32_t = 4"
| "sizeof uint64_t = 8"
| "sizeof uint32_t = 4"

fun to_le :: "nat \<Rightarrow> nat \<Rightarrow> byte list" where
  "to_le 0 v = []"
| "to_le (Suc n) v = of_nat (v mod 256) # to_le n (v div 256)"

fun from_le :: "byte list \<Rightarrow> nat" where
  "from_le [] = 0"
| "from_le (b # bs) = unat b + 256 * from_le bs"

definition put :: "ctype \<Rightarrow> nat \<Rightarrow> byte list" where
  "put T val = to_le (sizeof T) val"

definition get :: "ctype \<Rightarrow> byte list \<Rightarrow> error + (nat \<times> byte list)" where
  "get T arc =
     (if length arc < sizeof T then Inl Undefined
      else Inr (from_le (take (sizeof T) arc), drop (sizeof T) arc))"

text \<open>
  The value of a 64-bit pattern read as \<^verbatim>\<open>int64_t\<close> (two's complement); the two
  constants are \<open>2 ^ 63\<close> and \<open>2 ^ 64\<close>.
\<close>

definition as_int64 :: "nat \<Rightarrow> int" where
  "as_int64 r =
     (if int r < 9223372036854775808 then int r else int r - 18446744073709551616)"

text \<open>
  The source's own archive operators for \<^verbatim>\<open>arrow::util::string_view\<close>:
  \<^verbatim>\<open>in_archive << val.length(); in_archive.AddBytes(val.data(), val.length());\<close> and
  \<^verbatim>\<open>out_archive >> length; ptr = out_archive.GetBytes(length);\<close>.
  \<^verbatim>\<open>length()\<close> is a \<^verbatim>\<open>size_t\<close>, 8 bytes.
\<close>

definition put_string_view :: "byte list \<Rightarrow> byte list" where
  "put_string_view val = put uint64_t (length val) @ val"

definition get_string_view :: "byte list \<Rightarrow> error + (byte list \<times> byte list)" where
  "get_string_view arc =
     (case get uint64_t arc of
        Inl e \<Rightarrow> Inl e
      | Inr (len, arc') \<Rightarrow>
          if length arc' < len then Inl Undefined
          else Inr (take len arc', drop len arc'))"

section \<open>Columnar data\<close>

text \<open>
  The part of the Arrow library the source uses. A logical type is one of the six numeric
  types, \<^verbatim>\<open>large_utf8\<close>, \<^verbatim>\<open>null\<close>, or \<^verbatim>\<open>large_list\<close> of a type. A numeric array is its
  buffer of raw values tagged with the C type (\<^verbatim>\<open>ConvertToArrowType<T>::ArrayType\<close>); a
  large-string array is its strings; a null array is its length; a large-list array is its
  buffer of \<open>n + 1\<close> offsets and the child array of values, row \<open>i\<close> being the values from
  \<open>offsets[i]\<close> up to \<open>offsets[i + 1]\<close>. Validity bitmaps are not modelled: the source
  never reads one (\<^verbatim>\<open>raw_values\<close>, \<^verbatim>\<open>GetView\<close>, \<^verbatim>\<open>value_length\<close>) and every slot it
  appends is valid.
\<close>

datatype data_type =
  float64 | float32 | int64 | int32 | uint64 | uint32
  | large_utf8 | null_type | large_list data_type

fun ConvertToArrowType :: "ctype \<Rightarrow> data_type" where
  "ConvertToArrowType double = float64"
| "ConvertToArrowType float = float32"
| "ConvertToArrowType int64_t = int64"
| "ConvertToArrowType int32_t = int32"
| "ConvertToArrowType uint64_t = uint64"
| "ConvertToArrowType uint32_t = uint32"

datatype array =
  NumericArray ctype "nat list"
  | LargeStringArray "byte list list"
  | NullArray nat
  | LargeListArray "nat list" array

fun array_type :: "array \<Rightarrow> data_type" where
  "array_type (NumericArray T vs) = ConvertToArrowType T"
| "array_type (LargeStringArray ss) = large_utf8"
| "array_type (NullArray n) = null_type"
| "array_type (LargeListArray offs vals) = large_list (array_type vals)"

fun array_length :: "array \<Rightarrow> nat" where
  "array_length (NumericArray T vs) = length vs"
| "array_length (LargeStringArray ss) = length ss"
| "array_length (NullArray n) = n"
| "array_length (LargeListArray offs vals) = length offs - 1"

text \<open>\<^verbatim>\<open>Array::Slice(offset, length)\<close>; the length is clipped to what is left.\<close>

fun Slice :: "array \<Rightarrow> nat \<Rightarrow> nat \<Rightarrow> array" where
  "Slice (NumericArray T vs) off len = NumericArray T (take len (drop off vs))"
| "Slice (LargeStringArray ss) off len = LargeStringArray (take len (drop off ss))"
| "Slice (NullArray n) off len = NullArray (min len (n - off))"
| "Slice (LargeListArray offs vals) off len = LargeListArray (take (Suc len) (drop off offs)) vals"

text \<open>
  \<^verbatim>\<open>std::dynamic_pointer_cast<ConvertToArrowType<T>::ArrayType>(array)->raw_values()\<close>:
  the cast gives a null pointer for an array of another class, and the call through it is
  undefined.
\<close>

fun raw_values :: "ctype \<Rightarrow> array \<Rightarrow> error + nat list" where
  "raw_values T (NumericArray T' vs) = (if T' = T then Inr vs else Inl Undefined)"
| "raw_values T (LargeStringArray ss) = Inl Undefined"
| "raw_values T (NullArray n) = Inl Undefined"
| "raw_values T (LargeListArray offs vals) = Inl Undefined"

subsection \<open>Builders\<close>

text \<open>
  An array builder holds what has been appended so far. For a numeric builder
  \<^verbatim>\<open>Append(val)\<close> and \<^verbatim>\<open>AppendValues(ptr, n)\<close> add values at the end; for a large-string
  builder \<^verbatim>\<open>Append(view)\<close> copies the string; \<^verbatim>\<open>NullBuilder::AppendNulls(n)\<close> adds \<open>n\<close> to
  the length. A \<^verbatim>\<open>LargeListBuilder\<close> holds the offsets appended so far and the builder of the
  child values: \<^verbatim>\<open>Append(true)\<close> \<^emph>\<open>starts\<close> a new list slot, that is, it appends the current
  length of the value builder to the offsets (Arrow: ``This function should be called
  before beginning to append elements to the value builder''), and \<^verbatim>\<open>Finish\<close> appends the
  value builder's length as the closing offset. Allocation failures are not modelled.
\<close>

datatype array_builder =
  NumericBuilder ctype "nat list"
  | LargeStringBuilder "byte list list"
  | NullBuilder nat
  | LargeListBuilder "nat list" array_builder

fun MakeBuilder :: "data_type \<Rightarrow> array_builder" where
  "MakeBuilder float64 = NumericBuilder double []"
| "MakeBuilder float32 = NumericBuilder float []"
| "MakeBuilder int64 = NumericBuilder int64_t []"
| "MakeBuilder int32 = NumericBuilder int32_t []"
| "MakeBuilder uint64 = NumericBuilder uint64_t []"
| "MakeBuilder uint32 = NumericBuilder uint32_t []"
| "MakeBuilder large_utf8 = LargeStringBuilder []"
| "MakeBuilder null_type = NullBuilder 0"
| "MakeBuilder (large_list t) = LargeListBuilder [] (MakeBuilder t)"

fun builder_type :: "array_builder \<Rightarrow> data_type" where
  "builder_type (NumericBuilder T vs) = ConvertToArrowType T"
| "builder_type (LargeStringBuilder ss) = large_utf8"
| "builder_type (NullBuilder n) = null_type"
| "builder_type (LargeListBuilder offs vb) = large_list (builder_type vb)"

fun builder_length :: "array_builder \<Rightarrow> nat" where
  "builder_length (NumericBuilder T vs) = length vs"
| "builder_length (LargeStringBuilder ss) = length ss"
| "builder_length (NullBuilder n) = n"
| "builder_length (LargeListBuilder offs vb) = length offs"

fun Finish :: "array_builder \<Rightarrow> array" where
  "Finish (NumericBuilder T vs) = NumericArray T vs"
| "Finish (LargeStringBuilder ss) = LargeStringArray ss"
| "Finish (NullBuilder n) = NullArray n"
| "Finish (LargeListBuilder offs vb) = LargeListArray (offs @ [builder_length vb]) (Finish vb)"

text \<open>
  \<^verbatim>\<open>dynamic_cast<ConvertToArrowType<T>::BuilderType*>(builder)->Append(val)\<close> and
  \<^verbatim>\<open>->AppendValues(ptr, length)\<close>; the call through a failed cast is undefined.
\<close>

fun AppendValues :: "ctype \<Rightarrow> nat list \<Rightarrow> array_builder \<Rightarrow> error + array_builder" where
  "AppendValues T ptr (NumericBuilder T' vs) =
     (if T' = T then Inr (NumericBuilder T' (vs @ ptr)) else Inl Undefined)"
| "AppendValues T ptr (LargeStringBuilder ss) = Inl Undefined"
| "AppendValues T ptr (NullBuilder n) = Inl Undefined"
| "AppendValues T ptr (LargeListBuilder offs vb) = Inl Undefined"

definition Append :: "ctype \<Rightarrow> nat \<Rightarrow> array_builder \<Rightarrow> error + array_builder" where
  "Append T val builder = AppendValues T [val] builder"

fun Append_string :: "byte list \<Rightarrow> array_builder \<Rightarrow> error + array_builder" where
  "Append_string val (LargeStringBuilder ss) = Inr (LargeStringBuilder (ss @ [val]))"
| "Append_string val (NumericBuilder T vs) = Inl Undefined"
| "Append_string val (NullBuilder n) = Inl Undefined"
| "Append_string val (LargeListBuilder offs vb) = Inl Undefined"

fun AppendNulls :: "nat \<Rightarrow> array_builder \<Rightarrow> error + array_builder" where
  "AppendNulls num (NullBuilder n) = Inr (NullBuilder (n + num))"
| "AppendNulls num (NumericBuilder T vs) = Inl Undefined"
| "AppendNulls num (LargeStringBuilder ss) = Inl Undefined"
| "AppendNulls num (LargeListBuilder offs vb) = Inl Undefined"

subsection \<open>Record batches\<close>

text \<open>
  A schema is the ordered fields (name, logical type); a record batch is a schema, a row
  count and the columns. \<open>wf_array\<close> and \<open>wf_record_batch\<close> say what Arrow guarantees of
  a batch it hands out: raw values fit their width, strings and list offsets fit the signed
  64-bit offsets of the large types, list offsets are monotone and end inside the child
  array, the columns have the schema's types and the batch's row count.
\<close>

type_synonym schema = "(string \<times> data_type) list"

record record_batch =
  schema :: schema
  num_rows :: nat
  columns :: "array list"

fun wf_array :: "array \<Rightarrow> bool" where
  "wf_array (NumericArray T vs) = list_all (\<lambda>v. v < 256 ^ sizeof T) vs"
| "wf_array (LargeStringArray ss) = list_all (\<lambda>s. length s < 2 ^ 63) ss"
| "wf_array (NullArray n) = True"
| "wf_array (LargeListArray offs vals) =
     (offs \<noteq> [] \<and> sorted offs \<and> last offs \<le> array_length vals \<and> last offs < 2 ^ 63
      \<and> wf_array vals)"

definition wf_record_batch :: "record_batch \<Rightarrow> bool" where
  "wf_record_batch rb =
     (map snd (schema rb) = map array_type (columns rb)
      \<and> list_all (\<lambda>a. array_length a = num_rows rb \<and> wf_array a) (columns rb))"

text \<open>
  \<^verbatim>\<open>arrow::RecordBatchBuilder\<close>: \<^verbatim>\<open>Make(schema, pool, capacity, &builder)\<close> creates one
  builder per field and reserves the capacity in each, which fails for a negative
  capacity (the source aborts on the failure through \<^verbatim>\<open>ARROW_CHECK_OK\<close>);
  \<^verbatim>\<open>Flush(&batch)\<close> finishes every field builder, fails unless all the arrays have the length
  of the first, and makes the batch with that length (0 when there is no field).
\<close>

definition RecordBatchBuilder_Make :: "schema \<Rightarrow> int \<Rightarrow> error + array_builder list" where
  "RecordBatchBuilder_Make sch capacity =
     (if capacity < 0 \<and> sch \<noteq> [] then Inl Fatal else Inr (map (\<lambda>f. MakeBuilder (snd f)) sch))"

definition Flush :: "schema \<Rightarrow> array_builder list \<Rightarrow> error + record_batch" where
  "Flush sch builders =
     (let fields = map Finish builders in
      if \<exists>a \<in> set fields. array_length a \<noteq> array_length (hd fields) then Inl Fatal
      else Inr \<lparr> schema = sch,
                 num_rows = (if fields = [] then 0 else array_length (last fields)),
                 columns = fields \<rparr>)"

section \<open>The codec\<close>

subsection \<open>Serializing the selected items of a column\<close>

text \<open>
  \<^verbatim>\<open>serialize_selected_typed_items<T>(arc, array)\<close>: every value of the array, in order.
\<close>

definition serialize_selected_typed_items_all ::
  "ctype \<Rightarrow> byte list \<Rightarrow> array \<Rightarrow> error + byte list" where
  "serialize_selected_typed_items_all T arc array =
     (case raw_values T array of
        Inl e \<Rightarrow> Inl e
      | Inr ptr \<Rightarrow> Inr (fold (\<lambda>val a. a @ put T val) ptr arc))"

text \<open>
  \<^verbatim>\<open>serialize_selected_typed_items<T>(arc, array, offset)\<close>:
  \<^verbatim>\<open>for (auto x : offset) arc << ptr[x];\<close>. An index outside the buffer is undefined.
\<close>

fun serialize_typed_loop :: "ctype \<Rightarrow> nat list \<Rightarrow> nat list \<Rightarrow> byte list \<Rightarrow> error + byte list" where
  "serialize_typed_loop T ptr [] arc = Inr arc"
| "serialize_typed_loop T ptr (x # offset) arc =
     (if x < length ptr then serialize_typed_loop T ptr offset (arc @ put T (ptr ! x))
      else Inl Undefined)"

definition serialize_selected_typed_items ::
  "ctype \<Rightarrow> byte list \<Rightarrow> array \<Rightarrow> nat list \<Rightarrow> error + byte list" where
  "serialize_selected_typed_items T arc array offset =
     (case raw_values T array of
        Inl e \<Rightarrow> Inl e
      | Inr ptr \<Rightarrow> serialize_typed_loop T ptr offset arc)"

text \<open>
  \<^verbatim>\<open>serialize_string_items\<close>: \<^verbatim>\<open>for (auto x : offset) arc << ptr->GetView(x);\<close>. The
  pointer of the cast is used inside the loop only.
\<close>

fun serialize_string_loop :: "byte list list \<Rightarrow> nat list \<Rightarrow> byte list \<Rightarrow> error + byte list" where
  "serialize_string_loop ss [] arc = Inr arc"
| "serialize_string_loop ss (x # offset) arc =
     (if x < length ss then serialize_string_loop ss offset (arc @ put_string_view (ss ! x))
      else Inl Undefined)"

fun serialize_string_items :: "byte list \<Rightarrow> array \<Rightarrow> nat list \<Rightarrow> error + byte list" where
  "serialize_string_items arc (LargeStringArray ss) offset = serialize_string_loop ss offset arc"
| "serialize_string_items arc array offset = (if offset = [] then Inr arc else Inl Undefined)"

definition serialize_null_items :: "byte list \<Rightarrow> array \<Rightarrow> nat list \<Rightarrow> error + byte list" where
  "serialize_null_items arc array offset = Inr arc"

text \<open>
  \<^verbatim>\<open>serialize_list_items<T>\<close>: for every selected row, the list's length as a signed
  64-bit integer (\<^verbatim>\<open>value_length(x)\<close>, the difference of two offsets), then the values of
  \<^verbatim>\<open>value_slice(x)\<close>.
\<close>

fun serialize_list_loop ::
  "ctype \<Rightarrow> nat list \<Rightarrow> array \<Rightarrow> nat list \<Rightarrow> byte list \<Rightarrow> error + byte list" where
  "serialize_list_loop T offs vals [] arc = Inr arc"
| "serialize_list_loop T offs vals (x # offset) arc =
     (if Suc x < length offs then
        (let len = offs ! Suc x - offs ! x;
             arc1 = arc @ put int64_t len;
             val = Slice vals (offs ! x) len
         in case serialize_selected_typed_items_all T arc1 val of
              Inl e \<Rightarrow> Inl e
            | Inr arc2 \<Rightarrow> serialize_list_loop T offs vals offset arc2)
      else Inl Undefined)"

fun serialize_list_items :: "ctype \<Rightarrow> byte list \<Rightarrow> array \<Rightarrow> nat list \<Rightarrow> error + byte list" where
  "serialize_list_items T arc (LargeListArray offs vals) offset =
     serialize_list_loop T offs vals offset arc"
| "serialize_list_items T arc array offset = (if offset = [] then Inr arc else Inl Undefined)"

definition SerializeSelectedItems :: "byte list \<Rightarrow> array \<Rightarrow> nat list \<Rightarrow> error + byte list" where
  "SerializeSelectedItems arc array offset =
     (if array_type array = float64 then serialize_selected_typed_items double arc array offset
      else if array_type array = float32 then serialize_selected_typed_items float arc array offset
      else if array_type array = int64 then serialize_selected_typed_items int64_t arc array offset
      else if array_type array = int32 then serialize_selected_typed_items int32_t arc array offset
      else if array_type array = uint64 then serialize_selected_typed_items uint64_t arc array offset
      else if array_type array = uint32 then serialize_selected_typed_items uint32_t arc array offset
      else if array_type array = large_utf8 then serialize_string_items arc array offset
      else if array_type array = null_type then serialize_null_items arc array offset
      else if array_type array = large_list float64 then serialize_list_items double arc array offset
      else if array_type array = large_list float32 then serialize_list_items float arc array offset
      else if array_type array = large_list int64 then serialize_list_items int64_t arc array offset
      else if array_type array = large_list int32 then serialize_list_items int32_t arc array offset
      else if array_type array = large_list uint64 then serialize_list_items uint64_t arc array offset
      else if array_type array = large_list uint32 then serialize_list_items uint32_t arc array offset
      else Inl Fatal)"

text \<open>
  \<^verbatim>\<open>SerializeSelectedRows\<close>: the number of offsets as \<^verbatim>\<open>int64_t\<close>, then every column in
  order.
\<close>

fun serialize_columns :: "array list \<Rightarrow> nat list \<Rightarrow> byte list \<Rightarrow> error + byte list" where
  "serialize_columns [] offset arc = Inr arc"
| "serialize_columns (col # cols) offset arc =
     (case SerializeSelectedItems arc col offset of
        Inl e \<Rightarrow> Inl e
      | Inr arc' \<Rightarrow> serialize_columns cols offset arc')"

definition SerializeSelectedRows :: "byte list \<Rightarrow> record_batch \<Rightarrow> nat list \<Rightarrow> error + byte list" where
  "SerializeSelectedRows arc record_batch offset =
     serialize_columns (columns record_batch) offset (arc @ put int64_t (length offset))"

subsection \<open>Deserializing into builders\<close>

text \<open>
  \<^verbatim>\<open>deserialize_selected_typed_items<T>(arc, num, builder)\<close>:
  \<^verbatim>\<open>for (int64_t i = 0; i != num; ++i) { arc >> val; casted_builder->Append(val); }\<close>.
  For a negative \<open>num\<close> the counter never meets the bound.
\<close>

fun deserialize_typed_loop ::
  "ctype \<Rightarrow> nat \<Rightarrow> byte list \<Rightarrow> array_builder \<Rightarrow> error + (byte list \<times> array_builder)" where
  "deserialize_typed_loop T 0 arc builder = Inr (arc, builder)"
| "deserialize_typed_loop T (Suc n) arc builder =
     (case get T arc of
        Inl e \<Rightarrow> Inl e
      | Inr (val, arc') \<Rightarrow>
          (case Append T val builder of
             Inl e \<Rightarrow> Inl e
           | Inr builder' \<Rightarrow> deserialize_typed_loop T n arc' builder'))"

definition deserialize_selected_typed_items ::
  "ctype \<Rightarrow> byte list \<Rightarrow> int \<Rightarrow> array_builder \<Rightarrow> error + (byte list \<times> array_builder)" where
  "deserialize_selected_typed_items T arc num builder =
     (if num < 0 then Inl Undefined else deserialize_typed_loop T (nat num) arc builder)"

fun deserialize_string_loop ::
  "nat \<Rightarrow> byte list \<Rightarrow> array_builder \<Rightarrow> error + (byte list \<times> array_builder)" where
  "deserialize_string_loop 0 arc builder = Inr (arc, builder)"
| "deserialize_string_loop (Suc n) arc builder =
     (case get_string_view arc of
        Inl e \<Rightarrow> Inl e
      | Inr (val, arc') \<Rightarrow>
          (case Append_string val builder of
             Inl e \<Rightarrow> Inl e
           | Inr builder' \<Rightarrow> deserialize_string_loop n arc' builder'))"

definition deserialize_string_items ::
  "byte list \<Rightarrow> int \<Rightarrow> array_builder \<Rightarrow> error + (byte list \<times> array_builder)" where
  "deserialize_string_items arc num builder =
     (if num < 0 then Inl Undefined else deserialize_string_loop (nat num) arc builder)"

text \<open>
  \<^verbatim>\<open>deserialize_null_items\<close>: \<^verbatim>\<open>casted_builder->AppendNulls(num)\<close>, whose status the source
  drops; Arrow refuses a negative count and leaves the builder as it is.
\<close>

definition deserialize_null_items ::
  "byte list \<Rightarrow> int \<Rightarrow> array_builder \<Rightarrow> error + (byte list \<times> array_builder)" where
  "deserialize_null_items arc num builder =
     (case AppendNulls (nat num) builder of
        Inl e \<Rightarrow> Inl e
      | Inr builder' \<Rightarrow> Inr (arc, if num < 0 then builder else builder'))"

text \<open>
  \<^verbatim>\<open>deserialize_list_items<T>\<close>: per row, read the length, read that many values into the
  value builder, \<^emph>\<open>then\<close> call \<^verbatim>\<open>casted_builder->Append(true)\<close>, which records the value
  builder's length at that moment as the row's offset.
\<close>

fun deserialize_list_loop ::
  "ctype \<Rightarrow> nat \<Rightarrow> byte list \<Rightarrow> nat list \<Rightarrow> array_builder
     \<Rightarrow> error + (byte list \<times> nat list \<times> array_builder)" where
  "deserialize_list_loop T 0 arc offs value_builder = Inr (arc, offs, value_builder)"
| "deserialize_list_loop T (Suc n) arc offs value_builder =
     (case get int64_t arc of
        Inl e \<Rightarrow> Inl e
      | Inr (len, arc1) \<Rightarrow>
          (case deserialize_selected_typed_items T arc1 (as_int64 len) value_builder of
             Inl e \<Rightarrow> Inl e
           | Inr (arc2, value_builder') \<Rightarrow>
               deserialize_list_loop T n arc2 (offs @ [builder_length value_builder'])
                 value_builder'))"

fun deserialize_list_items ::
  "ctype \<Rightarrow> byte list \<Rightarrow> int \<Rightarrow> array_builder \<Rightarrow> error + (byte list \<times> array_builder)" where
  "deserialize_list_items T arc num (LargeListBuilder offs value_builder) =
     (if num < 0 then Inl Undefined
      else case deserialize_list_loop T (nat num) arc offs value_builder of
             Inl e \<Rightarrow> Inl e
           | Inr (arc', offs', value_builder') \<Rightarrow>
               Inr (arc', LargeListBuilder offs' value_builder'))"
| "deserialize_list_items T arc num builder = Inl Undefined"

definition DeserializeSelectedItems ::
  "byte list \<Rightarrow> int \<Rightarrow> array_builder \<Rightarrow> error + (byte list \<times> array_builder)" where
  "DeserializeSelectedItems arc num builder =
     (if builder_type builder = float64 then deserialize_selected_typed_items double arc num builder
      else if builder_type builder = float32 then deserialize_selected_typed_items float arc num builder
      else if builder_type builder = int64 then deserialize_selected_typed_items int64_t arc num builder
      else if builder_type builder = int32 then deserialize_selected_typed_items int32_t arc num builder
      else if builder_type builder = uint64 then deserialize_selected_typed_items uint64_t arc num builder
      else if builder_type builder = uint32 then deserialize_selected_typed_items uint32_t arc num builder
      else if builder_type builder = large_utf8 then deserialize_string_items arc num builder
      else if builder_type builder = null_type then deserialize_null_items arc num builder
      else if builder_type builder = large_list float64 then deserialize_list_items double arc num builder
      else if builder_type builder = large_list float32 then deserialize_list_items float arc num builder
      else if builder_type builder = large_list int64 then deserialize_list_items int64_t arc num builder
      else if builder_type builder = large_list int32 then deserialize_list_items int32_t arc num builder
      else if builder_type builder = large_list uint64 then deserialize_list_items uint64_t arc num builder
      else if builder_type builder = large_list uint32 then deserialize_list_items uint32_t arc num builder
      else Inl Fatal)"

text \<open>
  \<^verbatim>\<open>DeserializeSelectedRows\<close>: read the row count, make the builders of the schema with
  that capacity, fill every field builder in order, flush. The result is the batch and
  what is left of the archive.
\<close>

fun deserialize_fields ::
  "int \<Rightarrow> array_builder list \<Rightarrow> byte list \<Rightarrow> error + (byte list \<times> array_builder list)" where
  "deserialize_fields row_num [] arc = Inr (arc, [])"
| "deserialize_fields row_num (builder # builders) arc =
     (case DeserializeSelectedItems arc row_num builder of
        Inl e \<Rightarrow> Inl e
      | Inr (arc', builder') \<Rightarrow>
          (case deserialize_fields row_num builders arc' of
             Inl e \<Rightarrow> Inl e
           | Inr (arc'', builders') \<Rightarrow> Inr (arc'', builder' # builders')))"

definition DeserializeSelectedRows :: "byte list \<Rightarrow> schema \<Rightarrow> error + (byte list \<times> record_batch)" where
  "DeserializeSelectedRows arc sch =
     (case get int64_t arc of
        Inl e \<Rightarrow> Inl e
      | Inr (r, arc1) \<Rightarrow>
          (let row_num = as_int64 r in
           case RecordBatchBuilder_Make sch row_num of
             Inl e \<Rightarrow> Inl e
           | Inr builders \<Rightarrow>
               (case deserialize_fields row_num builders arc1 of
                  Inl e \<Rightarrow> Inl e
                | Inr (arc2, builders') \<Rightarrow>
                    (case Flush sch builders' of
                       Inl e \<Rightarrow> Inl e
                     | Inr batch_out \<Rightarrow> Inr (arc2, batch_out)))))"

subsection \<open>Selecting rows in process\<close>

text \<open>
  \<^verbatim>\<open>select_typed_items<T>(array, builder)\<close> appends the whole array with
  \<^verbatim>\<open>AppendValues(ptr, array->length())\<close>; the overload with offsets appends \<^verbatim>\<open>ptr[x]\<close> for
  every \<open>x\<close>.
\<close>

definition select_typed_items_all :: "ctype \<Rightarrow> array \<Rightarrow> array_builder \<Rightarrow> error + array_builder" where
  "select_typed_items_all T array builder =
     (case raw_values T array of
        Inl e \<Rightarrow> Inl e
      | Inr ptr \<Rightarrow> AppendValues T ptr builder)"

fun select_typed_loop ::
  "ctype \<Rightarrow> nat list \<Rightarrow> nat list \<Rightarrow> array_builder \<Rightarrow> error + array_builder" where
  "select_typed_loop T ptr [] builder = Inr builder"
| "select_typed_loop T ptr (x # offset) builder =
     (if x < length ptr then
        (case Append T (ptr ! x) builder of
           Inl e \<Rightarrow> Inl e
         | Inr builder' \<Rightarrow> select_typed_loop T ptr offset builder')
      else Inl Undefined)"

definition select_typed_items ::
  "ctype \<Rightarrow> array \<Rightarrow> nat list \<Rightarrow> array_builder \<Rightarrow> error + array_builder" where
  "select_typed_items T array offset builder =
     (case raw_values T array of
        Inl e \<Rightarrow> Inl e
      | Inr ptr \<Rightarrow> select_typed_loop T ptr offset builder)"

fun select_string_loop ::
  "byte list list \<Rightarrow> nat list \<Rightarrow> array_builder \<Rightarrow> error + array_builder" where
  "select_string_loop ss [] builder = Inr builder"
| "select_string_loop ss (x # offset) builder =
     (if x < length ss then
        (case Append_string (ss ! x) builder of
           Inl e \<Rightarrow> Inl e
         | Inr builder' \<Rightarrow> select_string_loop ss offset builder')
      else Inl Undefined)"

fun select_string_items :: "array \<Rightarrow> nat list \<Rightarrow> array_builder \<Rightarrow> error + array_builder" where
  "select_string_items (LargeStringArray ss) offset builder = select_string_loop ss offset builder"
| "select_string_items array offset builder = (if offset = [] then Inr builder else Inl Undefined)"

definition select_null_items :: "array \<Rightarrow> nat list \<Rightarrow> array_builder \<Rightarrow> error + array_builder" where
  "select_null_items array offset builder = AppendNulls (length offset) builder"

text \<open>
  \<^verbatim>\<open>select_list_items<T>\<close>: per row, append the values of \<^verbatim>\<open>value_slice(x)\<close> to the value
  builder, then \<^verbatim>\<open>casted_builder->Append(true)\<close>.
\<close>

fun select_list_loop ::
  "ctype \<Rightarrow> nat list \<Rightarrow> array \<Rightarrow> nat list \<Rightarrow> nat list \<Rightarrow> array_builder
     \<Rightarrow> error + (nat list \<times> array_builder)" where
  "select_list_loop T offs vals [] boffs value_builder = Inr (boffs, value_builder)"
| "select_list_loop T offs vals (x # offset) boffs value_builder =
     (if Suc x < length offs then
        (case select_typed_items_all T (Slice vals (offs ! x) (offs ! Suc x - offs ! x))
                value_builder of
           Inl e \<Rightarrow> Inl e
         | Inr value_builder' \<Rightarrow>
             select_list_loop T offs vals offset (boffs @ [builder_length value_builder'])
               value_builder')
      else Inl Undefined)"

fun select_list_items ::
  "ctype \<Rightarrow> array \<Rightarrow> nat list \<Rightarrow> array_builder \<Rightarrow> error + array_builder" where
  "select_list_items T (LargeListArray offs vals) offset (LargeListBuilder boffs value_builder) =
     (case select_list_loop T offs vals offset boffs value_builder of
        Inl e \<Rightarrow> Inl e
      | Inr (boffs', value_builder') \<Rightarrow> Inr (LargeListBuilder boffs' value_builder'))"
| "select_list_items T (LargeListArray offs vals) offset builder = Inl Undefined"
| "select_list_items T array offset (LargeListBuilder boffs value_builder) =
     (if offset = [] then Inr (LargeListBuilder boffs value_builder) else Inl Undefined)"
| "select_list_items T array offset builder = Inl Undefined"

definition SelectItems :: "array \<Rightarrow> nat list \<Rightarrow> array_builder \<Rightarrow> error + array_builder" where
  "SelectItems array offset builder =
     (if array_type array = float64 then select_typed_items double array offset builder
      else if array_type array = float32 then select_typed_items float array offset builder
      else if array_type array = int64 then select_typed_items int64_t array offset builder
      else if array_type array = int32 then select_typed_items int32_t array offset builder
      else if array_type array = uint64 then select_typed_items uint64_t array offset builder
      else if array_type array = uint32 then select_typed_items uint32_t array offset builder
      else if array_type array = large_utf8 then select_string_items array offset builder
      else if array_type array = null_type then select_null_items array offset builder
      else if array_type array = large_list float64 then select_list_items double array offset builder
      else if array_type array = large_list float32 then select_list_items float array offset builder
      else if array_type array = large_list int64 then select_list_items int64_t array offset builder
      else if array_type array = large_list int32 then select_list_items int32_t array offset builder
      else if array_type array = large_list uint64 then select_list_items uint64_t array offset builder
      else if array_type array = large_list uint32 then select_list_items uint32_t array offset builder
      else Inl Fatal)"

text \<open>
  \<^verbatim>\<open>SelectRows\<close>: the builders of the input batch's schema, every field filled from the
  column of the same index (a batch with fewer columns than fields has no such column),
  flush.
\<close>

fun select_fields ::
  "array list \<Rightarrow> nat list \<Rightarrow> array_builder list \<Rightarrow> error + array_builder list" where
  "select_fields cols offset [] = Inr []"
| "select_fields [] offset (builder # builders) = Inl Undefined"
| "select_fields (col # cols) offset (builder # builders) =
     (case SelectItems col offset builder of
        Inl e \<Rightarrow> Inl e
      | Inr builder' \<Rightarrow>
          (case select_fields cols offset builders of
             Inl e \<Rightarrow> Inl e
           | Inr builders' \<Rightarrow> Inr (builder' # builders')))"

definition SelectRows :: "record_batch \<Rightarrow> nat list \<Rightarrow> error + record_batch" where
  "SelectRows record_batch_in offset =
     (case RecordBatchBuilder_Make (schema record_batch_in) (int (length offset)) of
        Inl e \<Rightarrow> Inl e
      | Inr builders \<Rightarrow>
          (case select_fields (columns record_batch_in) offset builders of
             Inl e \<Rightarrow> Inl e
           | Inr builders' \<Rightarrow> Flush (schema record_batch_in) builders'))"

subsection \<open>The two paths side by side\<close>

text \<open>
  The network path of a slice: serialize the selected rows into a fresh archive, then
  deserialize the archive on the receiver's side with the receiver's schema.
\<close>

definition serialize_then_deserialize :: "record_batch \<Rightarrow> nat list \<Rightarrow> schema \<Rightarrow> error + record_batch" where
  "serialize_then_deserialize record_batch offset sch =
     (case SerializeSelectedRows [] record_batch offset of
        Inl e \<Rightarrow> Inl e
      | Inr arc \<Rightarrow>
          (case DeserializeSelectedRows arc sch of
             Inl e \<Rightarrow> Inl e
           | Inr (rest, batch_out) \<Rightarrow> Inr batch_out))"

text \<open>The closed set of column types of the three dispatch chains.\<close>

definition supported :: "data_type \<Rightarrow> bool" where
  "supported t =
     (t = float64 \<or> t = float32 \<or> t = int64 \<or> t = int32 \<or> t = uint64 \<or> t = uint32
      \<or> t = large_utf8 \<or> t = null_type
      \<or> t = large_list float64 \<or> t = large_list float32 \<or> t = large_list int64
      \<or> t = large_list int32 \<or> t = large_list uint64 \<or> t = large_list uint32)"

section \<open>Rows by value and the wire format of the specification\<close>

text \<open>
  The value of one row of a column: a numeric bit pattern, a string, a null, or a list of
  numeric bit patterns (the values between the row's two offsets). Two columns are equal
  by value when they have the same cells.
\<close>

datatype cell =
  NumericCell ctype nat
  | StringCell "byte list"
  | NullCell
  | ListCell ctype "nat list"
  | UnsupportedCell

fun cell_at :: "array \<Rightarrow> nat \<Rightarrow> cell" where
  "cell_at (NumericArray T vs) x = NumericCell T (vs ! x)"
| "cell_at (LargeStringArray ss) x = StringCell (ss ! x)"
| "cell_at (NullArray n) x = NullCell"
| "cell_at (LargeListArray offs (NumericArray T vs)) x =
     ListCell T (take (offs ! Suc x - offs ! x) (drop (offs ! x) vs))"
| "cell_at (LargeListArray offs vals) x = UnsupportedCell"

definition cells :: "array \<Rightarrow> cell list" where
  "cells a = map (cell_at a) [0..<array_length a]"

text \<open>
  The encodings of the specification's table (section 3), written from its words: a
  numeric value is its raw little-endian bytes; a string is its length as a machine-width
  (8-byte) count, then its bytes; a null is no byte; a list is its length as a signed
  64-bit integer, then that many raw values. A wire message is the 64-bit row count, then
  for each column in order the encodings of the selected rows.
\<close>

fun wire_encoding :: "cell \<Rightarrow> byte list" where
  "wire_encoding (NumericCell T v) = to_le (sizeof T) v"
| "wire_encoding (StringCell s) = to_le 8 (length s) @ s"
| "wire_encoding NullCell = []"
| "wire_encoding (ListCell T vs) = to_le 8 (length vs) @ concat (map (to_le (sizeof T)) vs)"
| "wire_encoding UnsupportedCell = []"

definition wire_column :: "cell list \<Rightarrow> byte list" where
  "wire_column cs = concat (map wire_encoding cs)"

definition wire_message :: "nat \<Rightarrow> cell list list \<Rightarrow> byte list" where
  "wire_message n cols = to_le 8 n @ concat (map wire_column cols)"

text \<open>
  What a cell of a given type must satisfy to be read back: its values fit their width and
  its length fits a signed 64-bit count.
\<close>

fun cell_ok :: "data_type \<Rightarrow> cell \<Rightarrow> bool" where
  "cell_ok t (NumericCell T v) = (t = ConvertToArrowType T \<and> v < 256 ^ sizeof T)"
| "cell_ok t (StringCell s) = (t = large_utf8 \<and> length s < 2 ^ 63)"
| "cell_ok t NullCell = (t = null_type)"
| "cell_ok t (ListCell T vs) =
     (t = large_list (ConvertToArrowType T) \<and> length vs < 2 ^ 63
      \<and> list_all (\<lambda>v. v < 256 ^ sizeof T) vs)"
| "cell_ok t UnsupportedCell = False"

text \<open>
  The builder calls the source makes for one cell, in the source's order: a numeric value
  and a string are appended; a null adds one to the length; for a list the values go to
  the value builder first and \<^verbatim>\<open>Append(true)\<close> then records the value builder's new
  length as the slot's offset.
\<close>

fun append_cell :: "cell \<Rightarrow> array_builder \<Rightarrow> array_builder" where
  "append_cell (NumericCell T v) (NumericBuilder T' vs) = NumericBuilder T' (vs @ [v])"
| "append_cell (StringCell s) (LargeStringBuilder ss) = LargeStringBuilder (ss @ [s])"
| "append_cell NullCell (NullBuilder n) = NullBuilder (Suc n)"
| "append_cell (ListCell T vs) (LargeListBuilder offs (NumericBuilder T' ws)) =
     LargeListBuilder (offs @ [length ws + length vs]) (NumericBuilder T' (ws @ vs))"
| "append_cell c builder = builder"

text \<open>
  The cells of the selected rows, column by column; the columns the builders of a schema
  finish to after the cells of each column have been appended; schemas of supported types.
\<close>

definition selected_cells :: "array list \<Rightarrow> nat list \<Rightarrow> cell list list" where
  "selected_cells cols offset = map (\<lambda>col. map (cell_at col) offset) cols"

definition supported_schema :: "schema \<Rightarrow> bool" where
  "supported_schema sch = list_all (\<lambda>f. supported (snd f)) sch"

definition built_columns :: "schema \<Rightarrow> cell list list \<Rightarrow> array list" where
  "built_columns sch css =
     map2 (\<lambda>cs f. Finish (fold append_cell cs (MakeBuilder (snd f)))) css sch"

section \<open>The communicator\<close>

text \<open>
  What the source reads of \<^verbatim>\<open>grape::CommSpec\<close>: the worker's id and the number of workers,
  its fragment id and the number of fragments, the number of workers on this host, and the
  two mappings between workers and fragments.
\<close>

record comm_spec =
  worker_id :: nat
  worker_num :: nat
  fid :: nat
  fnum :: nat
  local_num :: "32 word"
  WorkerToFrag :: "nat \<Rightarrow> nat"
  FragToWorker :: "nat \<Rightarrow> nat"

section \<open>The schema barrier\<close>

text \<open>
  \<^verbatim>\<open>SchemaConsistent\<close> on one worker. Arrow's \<^verbatim>\<open>ipc::SerializeSchema\<close> and
  \<^verbatim>\<open>ipc::ReadSchema\<close> are parameters (\<open>None\<close> for a status that is not OK);
  \<^verbatim>\<open>Schema::Equals\<close> is equality of the fields (names and types). \<open>flag_sum\<close> is what
  \<^verbatim>\<open>MPI_Allreduce\<close> returns for the sum of the failure flags and \<open>recv src\<close> the buffer
  \<^verbatim>\<open>RecvArrowBuffer\<close> receives from worker \<open>src\<close>. The receive thread's loop,
  \<^verbatim>\<open>for (int i = 1; i < worker_num; ++i)\<close>, receives from
  \<^verbatim>\<open>(worker_id + worker_num - i) % worker_num\<close>, reads the schema (aborting through
  \<^verbatim>\<open>ARROW_CHECK_OK\<close> when it cannot be read) and updates
  \<^verbatim>\<open>consistent &= got_schema->Equals(schema)\<close>.
\<close>

fun recv_schemas ::
  "(byte list \<Rightarrow> schema option) \<Rightarrow> schema \<Rightarrow> comm_spec \<Rightarrow> (nat \<Rightarrow> byte list) \<Rightarrow> nat list \<Rightarrow> bool
     \<Rightarrow> error + bool" where
  "recv_schemas ReadSchema sch comm recv [] consistent = Inr consistent"
| "recv_schemas ReadSchema sch comm recv (i # rest) consistent =
     (let src_worker_id = (worker_id comm + worker_num comm - i) mod worker_num comm
      in case ReadSchema (recv src_worker_id) of
           None \<Rightarrow> Inl Fatal
         | Some got_schema \<Rightarrow>
             recv_schemas ReadSchema sch comm recv rest (consistent \<and> got_schema = sch))"

definition SchemaConsistent ::
  "(schema \<Rightarrow> byte list option) \<Rightarrow> (byte list \<Rightarrow> schema option) \<Rightarrow> schema \<Rightarrow> comm_spec \<Rightarrow> int
     \<Rightarrow> (nat \<Rightarrow> byte list) \<Rightarrow> error + unit" where
  "SchemaConsistent SerializeSchema ReadSchema sch comm flag_sum recv =
     (case SerializeSchema sch of
        None \<Rightarrow> Inl kArrowError
      | Some buffer \<Rightarrow>
          if flag_sum \<noteq> 0 then Inl kArrowError
          else (case recv_schemas ReadSchema sch comm recv [1..<worker_num comm] True of
                  Inl e \<Rightarrow> Inl e
                | Inr consistent \<Rightarrow>
                    if \<not> consistent then Inl kInvalidOperationError else Inr ()))"

text \<open>
  All the workers together: the all-reduced sum of the flags (a worker whose serialization
  failed contributes 1), and the buffer each worker sends to every other worker.
\<close>

definition schema_flag_sum :: "(schema \<Rightarrow> byte list option) \<Rightarrow> (nat \<Rightarrow> schema) \<Rightarrow> nat \<Rightarrow> int" where
  "schema_flag_sum SerializeSchema schema_of W =
     (\<Sum>w\<leftarrow>[0..<W]. if SerializeSchema (schema_of w) = None then 1 else 0)"

definition schema_buffer_of ::
  "(schema \<Rightarrow> byte list option) \<Rightarrow> (nat \<Rightarrow> schema) \<Rightarrow> nat \<Rightarrow> byte list" where
  "schema_buffer_of SerializeSchema schema_of w =
     (case SerializeSchema (schema_of w) of None \<Rightarrow> [] | Some buffer \<Rightarrow> buffer)"

definition schema_barrier ::
  "(schema \<Rightarrow> byte list option) \<Rightarrow> (byte list \<Rightarrow> schema option) \<Rightarrow> (nat \<Rightarrow> comm_spec)
     \<Rightarrow> (nat \<Rightarrow> schema) \<Rightarrow> nat \<Rightarrow> nat \<Rightarrow> error + unit" where
  "schema_barrier SerializeSchema ReadSchema comm_of schema_of W v =
     SchemaConsistent SerializeSchema ReadSchema (schema_of v) (comm_of v)
       (schema_flag_sum SerializeSchema schema_of W)
       (schema_buffer_of SerializeSchema schema_of)"

section \<open>The routers' scans\<close>

text \<open>
  \<^verbatim>\<open>offset_list[fid].push_back(row_id)\<close> for the fragment \<open>f\<close>; an index outside the
  vector is undefined.
\<close>

definition push_back :: "nat list list \<Rightarrow> nat \<Rightarrow> nat \<Rightarrow> error + nat list list" where
  "push_back offset_list f row_id =
     (if f < length offset_list
      then Inr (offset_list[f := offset_list ! f @ [row_id]])
      else Inl Undefined)"

text \<open>
  The vertex router's loop over the rows of one batch,
  \<^verbatim>\<open>for (row_id = 0; row_id < row_num; ++row_id)\<close>, as a recursion over the row ids
  \<open>[0..<row_num]\<close>: the key is read from column 0 with \<^verbatim>\<open>GetView(row_id)\<close>, the partitioner
  (\<^verbatim>\<open>GetPartitionId\<close>, a parameter) gives the fragment, and the row id is appended to that
  fragment's list.
\<close>

fun vertex_scan_rows ::
  "(cell \<Rightarrow> nat) \<Rightarrow> array \<Rightarrow> nat list \<Rightarrow> nat list list \<Rightarrow> error + nat list list" where
  "vertex_scan_rows GetPartitionId id_col [] offset_list = Inr offset_list"
| "vertex_scan_rows GetPartitionId id_col (row_id # rows) offset_list =
     (if row_id < array_length id_col then
        (case push_back offset_list (GetPartitionId (cell_at id_col row_id)) row_id of
           Inl e \<Rightarrow> Inl e
         | Inr offset_list' \<Rightarrow> vertex_scan_rows GetPartitionId id_col rows offset_list')
      else Inl Undefined)"

text \<open>
  The body a scan thread runs for the batch it has claimed: resize the batch's vector of
  offset lists to \<^verbatim>\<open>fnum\<close>, cast column 0 to the array class of the key type
  (\<open>oid_type\<close>; a batch with no column has no column 0, and a failed cast is used only
  when there is a row), scan the rows.
\<close>

definition vertex_scan_batch ::
  "comm_spec \<Rightarrow> data_type \<Rightarrow> (cell \<Rightarrow> nat) \<Rightarrow> record_batch \<Rightarrow> error + nat list list" where
  "vertex_scan_batch comm oid_type GetPartitionId cur_batch =
     (let offset_list = replicate (fnum comm) [];
          row_num = num_rows cur_batch
      in if columns cur_batch = [] then Inl Undefined
         else if row_num \<noteq> 0 \<and> array_type (hd (columns cur_batch)) \<noteq> oid_type then Inl Undefined
         else vertex_scan_rows GetPartitionId (hd (columns cur_batch)) [0..<row_num] offset_list)"

text \<open>
  The edge router's loop: the fragments of the source and of the destination vertex id
  (\<^verbatim>\<open>id_parser.GetFid\<close>, a parameter); the row goes to the source's list, and to the
  destination's list when the two fragments differ.
\<close>

fun edge_scan_rows ::
  "(nat \<Rightarrow> nat) \<Rightarrow> nat list \<Rightarrow> nat list \<Rightarrow> nat list \<Rightarrow> nat list list \<Rightarrow> error + nat list list" where
  "edge_scan_rows GetFid src_col dst_col [] offset_list = Inr offset_list"
| "edge_scan_rows GetFid src_col dst_col (row_id # rows) offset_list =
     (if row_id < length src_col \<and> row_id < length dst_col then
        (let src_fid = GetFid (src_col ! row_id);
             dst_fid = GetFid (dst_col ! row_id)
         in case push_back offset_list src_fid row_id of
              Inl e \<Rightarrow> Inl e
            | Inr offset_list1 \<Rightarrow>
                if src_fid \<noteq> dst_fid then
                  (case push_back offset_list1 dst_fid row_id of
                     Inl e \<Rightarrow> Inl e
                   | Inr offset_list2 \<Rightarrow> edge_scan_rows GetFid src_col dst_col rows offset_list2)
                else edge_scan_rows GetFid src_col dst_col rows offset_list1)
      else Inl Undefined)"

text \<open>
  The edge scan of one batch: the raw values of the two designated columns, cast to the
  array class of \<^verbatim>\<open>VID_TYPE\<close> (the pointer of a failed cast, or a column id outside the
  batch, is used at once).
\<close>

definition edge_scan_batch ::
  "comm_spec \<Rightarrow> ctype \<Rightarrow> (nat \<Rightarrow> nat) \<Rightarrow> nat \<Rightarrow> nat \<Rightarrow> record_batch \<Rightarrow> error + nat list list" where
  "edge_scan_batch comm VID_TYPE GetFid src_col_id dst_col_id cur_batch =
     (let offset_list = replicate (fnum comm) [];
          row_num = num_rows cur_batch
      in if src_col_id < length (columns cur_batch) \<and> dst_col_id < length (columns cur_batch) then
           (case raw_values VID_TYPE (columns cur_batch ! src_col_id) of
              Inl e \<Rightarrow> Inl e
            | Inr src_col \<Rightarrow>
                (case raw_values VID_TYPE (columns cur_batch ! dst_col_id) of
                   Inl e \<Rightarrow> Inl e
                 | Inr dst_col \<Rightarrow>
                     edge_scan_rows GetFid src_col dst_col [0..<row_num] offset_list))
         else Inl Undefined)"

text \<open>
  The scan threads claim the batches through an atomic counter, so each batch is scanned
  once and by one thread, whatever the interleaving; with no thread
  (\<^verbatim>\<open>thread_num <= 0\<close>) no batch is scanned and every vector of offset lists stays empty.
  A negative thread count cannot size the vector of threads.
\<close>

fun collect :: "(error + 'a) list \<Rightarrow> error + 'a list" where
  "collect [] = Inr []"
| "collect (r # rs) =
     (case r of
        Inl e \<Rightarrow> Inl e
      | Inr x \<Rightarrow> (case collect rs of Inl e \<Rightarrow> Inl e | Inr xs \<Rightarrow> Inr (x # xs)))"

definition scan_batches ::
  "int \<Rightarrow> (record_batch \<Rightarrow> error + nat list list) \<Rightarrow> record_batch list
     \<Rightarrow> error + nat list list list" where
  "scan_batches threads scan record_batches =
     (if threads < 0 then Inl Fatal
      else if threads = 0 then Inr (replicate (length record_batches) [])
      else collect (map scan record_batches))"

section \<open>The shuffle engine\<close>

text \<open>
  The fragments a serializer thread addresses for each batch it claims:
  \<^verbatim>\<open>for (int i = 1; i != worker_num; ++i) { dst_worker_id = (worker_id + i) % worker_num;
  dst_fid = comm_spec.WorkerToFrag(dst_worker_id); ... }\<close>.
\<close>

definition remote_fids :: "comm_spec \<Rightarrow> nat list" where
  "remote_fids comm =
     map (\<lambda>i. WorkerToFrag comm ((worker_id comm + i) mod worker_num comm))
       [1..<worker_num comm]"

text \<open>
  For one batch: one item \<open>(dst_fid, archive)\<close> per remote fragment, the archive holding the
  rows of \<^verbatim>\<open>cur_offset_lists[dst_fid]\<close>.
\<close>

fun serialize_for ::
  "record_batch \<Rightarrow> nat list list \<Rightarrow> nat list \<Rightarrow> error + (nat \<times> byte list) list" where
  "serialize_for cur_rb cur_offset_lists [] = Inr []"
| "serialize_for cur_rb cur_offset_lists (dst_fid # fids) =
     (if dst_fid < length cur_offset_lists then
        (case SerializeSelectedRows [] cur_rb (cur_offset_lists ! dst_fid) of
           Inl e \<Rightarrow> Inl e
         | Inr arc \<Rightarrow>
             (case serialize_for cur_rb cur_offset_lists fids of
                Inl e \<Rightarrow> Inl e
              | Inr items \<Rightarrow> Inr ((dst_fid, arc) # items)))
      else Inl Undefined)"

text \<open>
  The serializer pool claims the batches \<open>0, 1, ...\<close> through an atomic counter; the pool
  has at least one thread, so every batch is serialized once. The items are listed batch
  by batch (on the queue the items of different threads interleave). A batch without its
  vector of offset lists is an access outside \<^verbatim>\<open>offset_lists\<close>.
\<close>

fun serialize_batches ::
  "comm_spec \<Rightarrow> record_batch list \<Rightarrow> nat list list list \<Rightarrow> error + (nat \<times> byte list) list" where
  "serialize_batches comm [] offset_lists = Inr []"
| "serialize_batches comm (cur_rb # rbs) [] = Inl Undefined"
| "serialize_batches comm (cur_rb # rbs) (cur_offset_lists # offset_lists) =
     (case serialize_for cur_rb cur_offset_lists (remote_fids comm) of
        Inl e \<Rightarrow> Inl e
      | Inr items \<Rightarrow>
          (case serialize_batches comm rbs offset_lists of
             Inl e \<Rightarrow> Inl e
           | Inr items' \<Rightarrow> Inr (items @ items')))"

text \<open>
  The send thread sends each item to \<^verbatim>\<open>FragToWorker(item.first)\<close>: the archives of a queue
  that reach worker \<open>v\<close>.
\<close>

definition delivered_to :: "comm_spec \<Rightarrow> (nat \<times> byte list) list \<Rightarrow> nat \<Rightarrow> byte list list" where
  "delivered_to comm msg_out v =
     map snd (filter (\<lambda>item. FragToWorker comm (fst item) = v) msg_out)"

text \<open>
  The receive thread takes \<^verbatim>\<open>record_batches_to_recv\<close> archives from any source and the
  deserializer pool decodes each into the next slot of \<^verbatim>\<open>record_batches_in\<close>, which was
  resized to that count. \<open>incoming\<close> is the archives in the order their slots are claimed.
  A negative count never reaches zero by decrements, and with fewer archives than the count
  the receive thread waits forever.
\<close>

definition deserialize_batch :: "schema \<Rightarrow> byte list \<Rightarrow> error + record_batch" where
  "deserialize_batch sch arc =
     (case DeserializeSelectedRows arc sch of
        Inl e \<Rightarrow> Inl e
      | Inr (rest, batch_out) \<Rightarrow> Inr batch_out)"

definition receive_batches :: "schema \<Rightarrow> int \<Rightarrow> byte list list \<Rightarrow> error + record_batch list" where
  "receive_batches sch record_batches_to_recv incoming =
     (if record_batches_to_recv < 0 then Inl Undefined
      else if int (length incoming) < record_batches_to_recv then Inl Blocked
      else collect (map (deserialize_batch sch) (take (nat record_batches_to_recv) incoming)))"

text \<open>
  After the threads have joined:
  \<^verbatim>\<open>SelectRows(record_batches_out[rb_i], offset_lists[rb_i][comm_spec.fid()], rb)\<close> for every
  batch.
\<close>

fun select_local ::
  "nat \<Rightarrow> record_batch list \<Rightarrow> nat list list list \<Rightarrow> error + record_batch list" where
  "select_local f [] offset_lists = Inr []"
| "select_local f (rb # rbs) [] = Inl Undefined"
| "select_local f (rb # rbs) (cur_offset_lists # offset_lists) =
     (if f < length cur_offset_lists then
        (case SelectRows rb (cur_offset_lists ! f) of
           Inl e \<Rightarrow> Inl e
         | Inr out \<Rightarrow>
             (case select_local f rbs offset_lists of
                Inl e \<Rightarrow> Inl e
              | Inr outs \<Rightarrow> Inr (out # outs)))
      else Inl Undefined)"

text \<open>
  \<^verbatim>\<open>ShuffleTableByOffsetLists\<close> on one worker. \<open>total_record_batches\<close> is what
  \<^verbatim>\<open>MPI_Allreduce\<close> returns for the sum of the batch counts and \<open>incoming\<close> what the network
  delivers; the result is the items put on the outbound queue and the vector
  \<^verbatim>\<open>record_batches_in\<close>. The loop over the remote workers does not end for zero workers.
\<close>

definition ShuffleTableByOffsetLists ::
  "schema \<Rightarrow> record_batch list \<Rightarrow> nat list list list \<Rightarrow> comm_spec \<Rightarrow> int \<Rightarrow> byte list list
     \<Rightarrow> error + ((nat \<times> byte list) list \<times> record_batch list)" where
  "ShuffleTableByOffsetLists sch record_batches_out offset_lists comm total_record_batches incoming =
     (let record_batches_to_send = int (length record_batches_out);
          record_batches_to_recv = total_record_batches - record_batches_to_send
      in if worker_num comm = 0 then Inl Undefined
         else case serialize_batches comm record_batches_out offset_lists of
                Inl e \<Rightarrow> Inl e
              | Inr msg_out \<Rightarrow>
                  (case receive_batches sch record_batches_to_recv incoming of
                     Inl e \<Rightarrow> Inl e
                   | Inr record_batches_in \<Rightarrow>
                       (case select_local (fid comm) record_batches_out offset_lists of
                          Inl e \<Rightarrow> Inl e
                        | Inr local \<Rightarrow> Inr (msg_out, record_batches_in @ local))))"

text \<open>
  All the workers together: what reaches worker \<open>v\<close> of the queues of the workers
  \<open>0, ..., W - 1\<close>.
\<close>

definition arrivals ::
  "(nat \<Rightarrow> comm_spec) \<Rightarrow> (nat \<Rightarrow> (nat \<times> byte list) list) \<Rightarrow> nat \<Rightarrow> nat \<Rightarrow> byte list list" where
  "arrivals comm_of msg_out_of W v =
     concat (map (\<lambda>w. delivered_to (comm_of w) (msg_out_of w) v) [0..<W])"

text \<open>
  The mappings of a communicator as the deployments have them: as many fragments as
  workers, the two mappings inverse to each other, the worker's fragment its own image.
\<close>

definition wf_comm :: "comm_spec \<Rightarrow> bool" where
  "wf_comm comm =
     (worker_id comm < worker_num comm \<and> fnum comm = worker_num comm
      \<and> fid comm = WorkerToFrag comm (worker_id comm)
      \<and> list_all (\<lambda>w. WorkerToFrag comm w < fnum comm \<and> FragToWorker comm (WorkerToFrag comm w) = w)
           [0..<worker_num comm]
      \<and> list_all (\<lambda>f. FragToWorker comm f < worker_num comm \<and> WorkerToFrag comm (FragToWorker comm f) = f)
           [0..<fnum comm])"

text \<open>
  A batch and its vector of offset lists that the engine can route: a well-formed batch
  of supported column types, and for the local and every remote fragment an offset list
  of valid row indices, short enough for the signed 64-bit count.
\<close>

definition routable :: "comm_spec \<Rightarrow> record_batch \<Rightarrow> nat list list \<Rightarrow> bool" where
  "routable comm rb ol =
     (wf_record_batch rb \<and> supported_schema (schema rb)
      \<and> list_all (\<lambda>f. f < length ol \<and> list_all (\<lambda>x. x < num_rows rb) (ol ! f)
                       \<and> length (ol ! f) < 2 ^ 63)
           (fid comm # remote_fids comm))"

text \<open>
  The lists a completed scan of a batch leaves, in closed form: the list of fragment \<open>f\<close>
  holds, in increasing order, the rows whose key (for edges: whose source or destination)
  is in \<open>f\<close>.
\<close>

definition vertex_lists :: "(cell \<Rightarrow> nat) \<Rightarrow> array \<Rightarrow> nat \<Rightarrow> nat \<Rightarrow> nat list list" where
  "vertex_lists P col n F = map (\<lambda>f. filter (\<lambda>r. P (cell_at col r) = f) [0..<n]) [0..<F]"

definition edge_lists :: "(nat \<Rightarrow> nat) \<Rightarrow> nat list \<Rightarrow> nat list \<Rightarrow> nat \<Rightarrow> nat \<Rightarrow> nat list list" where
  "edge_lists G src dst n F =
     map (\<lambda>f. filter (\<lambda>r. G (src ! r) = f \<or> G (dst ! r) = f) [0..<n]) [0..<F]"


section \<open>Tables and the two public operations\<close>

text \<open>
  A table is a schema and its chunks, each a record batch.
\<close>

record table =
  table_schema :: schema
  table_batches :: "record_batch list"

text \<open>
  Modelled from the spec: \<^verbatim>\<open>TableToRecordBatches\<close>, \<^verbatim>\<open>RecordBatchesToTable\<close> and
  \<^verbatim>\<open>EmptyTableBuilder::Build\<close> are declared in \<^verbatim>\<open>basic/ds/arrow_utils.h\<close>, which is not
  among the sources. The specification lists ``table and batches conversion'' among the
  columnar library's services and asks for ``a valid empty table with the same schema'':
  a table converts to its chunks, batches of one schema convert to the table that has them
  as chunks, and the empty table of a schema has the schema and no chunk.
\<close>

definition TableToRecordBatches :: "table \<Rightarrow> error + record_batch list" where
  "TableToRecordBatches t = Inr (table_batches t)"

definition RecordBatchesToTable :: "record_batch list \<Rightarrow> error + table" where
  "RecordBatchesToTable batches =
     (if batches = [] \<or> (\<exists>b \<in> set batches. schema b \<noteq> schema (hd batches)) then Inl kArrowError
      else Inr \<lparr> table_schema = schema (hd batches), table_batches = batches \<rparr>)"

definition EmptyTableBuilder_Build :: "schema \<Rightarrow> error + table" where
  "EmptyTableBuilder_Build sch = Inr \<lparr> table_schema = sch, table_batches = [] \<rparr>"

text \<open>
  Modelled from the spec: Arrow's \<^verbatim>\<open>Table::CombineChunks\<close> (``combine its chunks'') gives
  the table of the same schema with one chunk that holds all the rows in order. The chunk's
  columns are rebuilt from the rows by value: \<open>table_cells\<close> is the table's rows, column
  by column, and \<open>array_of_cells\<close> the array of a type that holds given cells.
\<close>

fun cell_values :: "cell \<Rightarrow> nat list" where
  "cell_values (NumericCell T v) = [v]"
| "cell_values (ListCell T vs) = vs"
| "cell_values c = []"

fun cell_string :: "cell \<Rightarrow> byte list" where
  "cell_string (StringCell s) = s"
| "cell_string c = []"

fun list_offsets :: "nat \<Rightarrow> cell list \<Rightarrow> nat list" where
  "list_offsets start [] = [start]"
| "list_offsets start (c # cs) = start # list_offsets (start + length (cell_values c)) cs"

fun values_array :: "data_type \<Rightarrow> nat list \<Rightarrow> array" where
  "values_array float64 vs = NumericArray double vs"
| "values_array float32 vs = NumericArray float vs"
| "values_array int64 vs = NumericArray int64_t vs"
| "values_array int32 vs = NumericArray int32_t vs"
| "values_array uint64 vs = NumericArray uint64_t vs"
| "values_array uint32 vs = NumericArray uint32_t vs"
| "values_array large_utf8 vs = LargeStringArray []"
| "values_array null_type vs = NullArray 0"
| "values_array (large_list t) vs = LargeListArray [0] (values_array t [])"

fun array_of_cells :: "data_type \<Rightarrow> cell list \<Rightarrow> array" where
  "array_of_cells large_utf8 cs = LargeStringArray (map cell_string cs)"
| "array_of_cells null_type cs = NullArray (length cs)"
| "array_of_cells (large_list t) cs =
     LargeListArray (list_offsets 0 cs) (values_array t (concat (map cell_values cs)))"
| "array_of_cells t cs = values_array t (concat (map cell_values cs))"

definition column_cells :: "record_batch list \<Rightarrow> nat \<Rightarrow> cell list" where
  "column_cells batches j = concat (map (\<lambda>b. cells (columns b ! j)) batches)"

definition table_cells :: "table \<Rightarrow> cell list list" where
  "table_cells t = map (column_cells (table_batches t)) [0..<length (table_schema t)]"

definition table_num_rows :: "table \<Rightarrow> nat" where
  "table_num_rows t = sum_list (map num_rows (table_batches t))"

definition CombineChunks :: "table \<Rightarrow> error + table" where
  "CombineChunks t =
     Inr \<lparr> table_schema = table_schema t,
           table_batches =
             [\<lparr> schema = table_schema t, num_rows = table_num_rows t,
                columns = map2 (\<lambda>f cs. array_of_cells (snd f) cs) (table_schema t) (table_cells t) \<rparr>] \<rparr>"




text \<open>
  What the network and the host give one worker during a call: the schema serializer and
  reader, the all-reduced failure flag and the peers' schema buffers (the schema barrier),
  the hardware concurrency, the all-reduced batch count and the archives that arrive (the
  engine).
\<close>

record network =
  net_SerializeSchema :: "schema \<Rightarrow> byte list option"
  net_ReadSchema :: "byte list \<Rightarrow> schema option"
  net_flag_sum :: int
  net_recv_schema :: "nat \<Rightarrow> byte list"
  net_hardware_concurrency :: "32 word"
  net_total_record_batches :: int
  net_incoming :: "byte list list"

text \<open>
  The end of both operations: drop the batches without rows; with none left build the
  empty table of the input's schema, otherwise convert the batches to a table and combine
  its chunks.
\<close>

definition build_table_out :: "schema \<Rightarrow> record_batch list \<Rightarrow> error + table" where
  "build_table_out sch batches_in =
     (let batches_in' = filter (\<lambda>e. num_rows e \<noteq> 0) batches_in
      in if batches_in' = [] then EmptyTableBuilder_Build sch
         else case RecordBatchesToTable batches_in' of
                Inl e \<Rightarrow> Inl e
              | Inr tmp_table \<Rightarrow> CombineChunks tmp_table)"

text \<open>
  \<^verbatim>\<open>ShufflePropertyVertexTable\<close> and \<^verbatim>\<open>ShufflePropertyEdgeTable\<close> differ in the scan only:
  schema barrier, conversion to batches, scan of every batch, engine, table.
\<close>

definition shuffle_scanned ::
  "network \<Rightarrow> comm_spec \<Rightarrow> (record_batch \<Rightarrow> error + nat list list) \<Rightarrow> table \<Rightarrow> error + table" where
  "shuffle_scanned net comm scan table_in =
     (case SchemaConsistent (net_SerializeSchema net) (net_ReadSchema net) (table_schema table_in)
             comm (net_flag_sum net) (net_recv_schema net) of
        Inl e \<Rightarrow> Inl e
      | Inr ok \<Rightarrow>
          (case TableToRecordBatches table_in of
             Inl e \<Rightarrow> Inl e
           | Inr record_batches \<Rightarrow>
               (case scan_batches (thread_num (net_hardware_concurrency net) (local_num comm))
                       scan record_batches of
                  Inl e \<Rightarrow> Inl e
                | Inr offset_lists \<Rightarrow>
                    (case ShuffleTableByOffsetLists (table_schema table_in) record_batches
                            offset_lists comm (net_total_record_batches net) (net_incoming net) of
                       Inl e \<Rightarrow> Inl e
                     | Inr (msg_out, batches_in) \<Rightarrow>
                         build_table_out (table_schema table_in) batches_in))))"

definition ShufflePropertyVertexTable ::
  "network \<Rightarrow> comm_spec \<Rightarrow> data_type \<Rightarrow> (cell \<Rightarrow> nat) \<Rightarrow> table \<Rightarrow> error + table" where
  "ShufflePropertyVertexTable net comm oid_type GetPartitionId table_in =
     shuffle_scanned net comm (vertex_scan_batch comm oid_type GetPartitionId) table_in"

definition ShufflePropertyEdgeTable ::
  "network \<Rightarrow> comm_spec \<Rightarrow> ctype \<Rightarrow> (nat \<Rightarrow> nat) \<Rightarrow> nat \<Rightarrow> nat \<Rightarrow> table \<Rightarrow> error + table" where
  "ShufflePropertyEdgeTable net comm VID_TYPE GetFid src_col_id dst_col_id table_in =
     shuffle_scanned net comm (edge_scan_batch comm VID_TYPE GetFid src_col_id dst_col_id) table_in"

text \<open>The column types that are not lists.\<close>

definition scalar_type :: "data_type \<Rightarrow> bool" where
  "scalar_type t =
     (t = float64 \<or> t = float32 \<or> t = int64 \<or> t = int32 \<or> t = uint64 \<or> t = uint32
      \<or> t = large_utf8 \<or> t = null_type)"

text \<open>
  The items a call of either operation puts on its outbound queue, for the send thread to
  deliver: the queue of the engine the call runs (\<^verbatim>\<open>msg_out\<close> in
  \<^verbatim>\<open>ShuffleTableByOffsetLists\<close>), filled by the serializer pool from the scanned batches
  whatever arrives; nothing when the call returns before the engine.
\<close>

definition shuffle_scanned_msg_out ::
  "network \<Rightarrow> comm_spec \<Rightarrow> (record_batch \<Rightarrow> error + nat list list) \<Rightarrow> table
     \<Rightarrow> (nat \<times> byte list) list" where
  "shuffle_scanned_msg_out net comm scan table_in =
     (case SchemaConsistent (net_SerializeSchema net) (net_ReadSchema net) (table_schema table_in)
             comm (net_flag_sum net) (net_recv_schema net) of
        Inl e \<Rightarrow> []
      | Inr ok \<Rightarrow>
          (case TableToRecordBatches table_in of
             Inl e \<Rightarrow> []
           | Inr record_batches \<Rightarrow>
               (case scan_batches (thread_num (net_hardware_concurrency net) (local_num comm))
                       scan record_batches of
                  Inl e \<Rightarrow> []
                | Inr offset_lists \<Rightarrow>
                    (case serialize_batches comm record_batches offset_lists of
                       Inl e \<Rightarrow> []
                     | Inr msg_out \<Rightarrow> msg_out))))"


section \<open>Example batches\<close>

text \<open>
  A batch of two rows with a numeric, a string, a null and a list column, the cells of its
  rows 1, 0, 1, and the batch of the specification's scenario S5: one \<^verbatim>\<open>large_list<int32>\<close>
  column, one row holding the list 7, 8, 9.
\<close>

definition example_schema :: schema where
  "example_schema = [(''id'', int64), (''name'', large_utf8), (''tag'', null_type),
                     (''feat'', large_list int32)]"

definition example_batch :: record_batch where
  "example_batch =
     \<lparr> schema = example_schema, num_rows = 2,
       columns = [NumericArray int64_t [10, 20],
                  LargeStringArray [[97], [98, 99]],
                  NullArray 2,
                  LargeListArray [0, 3, 5] (NumericArray int32_t [7, 8, 9, 10, 11])] \<rparr>"

definition example_cells :: "cell list list" where
  "example_cells =
     [[NumericCell int64_t 20, NumericCell int64_t 10, NumericCell int64_t 20],
      [StringCell [98, 99], StringCell [97], StringCell [98, 99]],
      [NullCell, NullCell, NullCell],
      [ListCell int32_t [10, 11], ListCell int32_t [7, 8, 9], ListCell int32_t [10, 11]]]"

definition list_batch :: record_batch where
  "list_batch =
     \<lparr> schema = [(''c'', large_list int32)], num_rows = 1,
       columns = [LargeListArray [0, 3] (NumericArray int32_t [7, 8, 9])] \<rparr>"

text \<open>
  Worker 0 of two workers with the identity mappings, a partitioner on numeric keys, a
  batch of two edges (the first from fragment 0 to fragment 1, as in the specification's
  scenario S3, the second inside fragment 0), and an id parser that takes the bits above
  the low 32 as the fragment.
\<close>

definition comm2 :: comm_spec where
  "comm2 = \<lparr> worker_id = 0, worker_num = 2, fid = 0, fnum = 2, local_num = 1,
             WorkerToFrag = (\<lambda>w. w), FragToWorker = (\<lambda>f. f) \<rparr>"

definition example_partitioner :: "cell \<Rightarrow> nat" where
  "example_partitioner c = (case c of NumericCell T v \<Rightarrow> (v div 10) mod 2 | _ \<Rightarrow> 0)"

definition edge_batch :: record_batch where
  "edge_batch =
     \<lparr> schema = [(''src'', uint64), (''dst'', uint64)], num_rows = 2,
       columns = [NumericArray uint64_t [1, 5], NumericArray uint64_t [4294967298, 6]] \<rparr>"

definition example_GetFid :: "nat \<Rightarrow> nat" where
  "example_GetFid gid = gid div 4294967296"

text \<open>A batch with a single key column, for a run of the engine.\<close>

definition id_batch :: record_batch where
  "id_batch = \<lparr> schema = [(''id'', int64)], num_rows = 2,
                  columns = [NumericArray int64_t [10, 20]] \<rparr>"

text \<open>
  The specification's scenario S6: worker 0 presents \<open>(id : int64)\<close>, worker 1
  \<open>(id : int32)\<close>; a serializer and a reader of schemas that are inverse on these two.
\<close>

definition s6_schema_of :: "nat \<Rightarrow> schema" where
  "s6_schema_of w = (if w = 0 then [(''id'', int64)] else [(''id'', int32)])"

definition s6_SerializeSchema :: "schema \<Rightarrow> byte list option" where
  "s6_SerializeSchema sch = Some (if sch = [(''id'', int64)] then [0] else [1])"

definition s6_ReadSchema :: "byte list \<Rightarrow> schema option" where
  "s6_ReadSchema buffer = Some (if buffer = [0] then [(''id'', int64)] else [(''id'', int32)])"

text \<open>
  A serializer of schemas that fails on every schema but \<open>(id : int64)\<close>, as Arrow's does
  when it cannot allocate.
\<close>

definition s6_failing_SerializeSchema :: "schema \<Rightarrow> byte list option" where
  "s6_failing_SerializeSchema sch = (if sch = [(''id'', int64)] then Some [0] else None)"

definition s6_comm_of :: "nat \<Rightarrow> comm_spec" where
  "s6_comm_of w = comm2 \<lparr> worker_id := w, fid := w \<rparr>"



text \<open>
  A single worker, a network with nothing to deliver, and a vertex and an edge table of one
  row each with a \<^verbatim>\<open>large_list<int32>\<close> column holding 7, 8, 9.
\<close>

definition comm1 :: comm_spec where
  "comm1 = \<lparr> worker_id = 0, worker_num = 1, fid = 0, fnum = 1, local_num = 1,
             WorkerToFrag = (\<lambda>w. w), FragToWorker = (\<lambda>f. f) \<rparr>"

definition net1 :: network where
  "net1 = \<lparr> net_SerializeSchema = (\<lambda>sch. Some []), net_ReadSchema = (\<lambda>buffer. None),
            net_flag_sum = 0, net_recv_schema = (\<lambda>src. []), net_hardware_concurrency = 1,
            net_total_record_batches = 1, net_incoming = [] \<rparr>"

definition feature_table :: table where
  "feature_table =
     \<lparr> table_schema = [(''id'', int64), (''feat'', large_list int32)],
       table_batches =
         [\<lparr> schema = [(''id'', int64), (''feat'', large_list int32)], num_rows = 1,
            columns = [NumericArray int64_t [10],
                       LargeListArray [0, 3] (NumericArray int32_t [7, 8, 9])] \<rparr>] \<rparr>"

definition edge_feature_table :: table where
  "edge_feature_table =
     \<lparr> table_schema = [(''src'', uint64), (''dst'', uint64), (''feat'', large_list int32)],
       table_batches =
         [\<lparr> schema = [(''src'', uint64), (''dst'', uint64), (''feat'', large_list int32)],
            num_rows = 1,
            columns = [NumericArray uint64_t [1], NumericArray uint64_t [2],
                       LargeListArray [0, 3] (NumericArray int32_t [7, 8, 9])] \<rparr>] \<rparr>"

section \<open>Theorems\<close>

subsection \<open>The codec\<close>

lemma length_to_le [simp]: "length (to_le n v) = n"
  by (induction n arbitrary: v) auto

lemma from_le_to_le: "from_le (to_le n v) = v mod 256 ^ n"
proof (induction n arbitrary: v)
  case 0
  then show ?case by simp
next
  case (Suc n)
  have "unat (of_nat (v mod 256) :: byte) = v mod 256"
    by (simp add: unat_of_nat)
  then show ?case
    using Suc [of "v div 256"] by (simp add: mod_mult2_eq)
qed

lemma length_put [simp]: "length (put T v) = sizeof T"
  by (simp add: put_def)

lemma get_put: "v < 256 ^ sizeof T \<Longrightarrow> get T (put T v @ rest) = Inr (v, rest)"
  by (simp add: get_def put_def from_le_to_le)

lemma as_int64_small: "n < 2 ^ 63 \<Longrightarrow> as_int64 n = int n"
  by (simp add: as_int64_def)

lemma get_string_view_put:
  "length s < 2 ^ 63 \<Longrightarrow> get_string_view (put_string_view s @ rest) = Inr (s, rest)"
proof -
  assume "length s < 2 ^ 63"
  then have "length s < 256 ^ sizeof uint64_t" by simp
  then show ?thesis
    by (simp add: get_string_view_def put_string_view_def get_put)
qed

lemma fold_put: "fold (\<lambda>val a. a @ put T val) vs arc = arc @ concat (map (put T) vs)"
  by (induction vs arbitrary: arc) auto

lemma serialize_typed_loop_eq:
  "list_all (\<lambda>x. x < length ptr) offset \<Longrightarrow>
   serialize_typed_loop T ptr offset arc = Inr (arc @ concat (map (\<lambda>x. put T (ptr ! x)) offset))"
  by (induction offset arbitrary: arc) auto

lemma deserialize_typed_loop_eq:
  "list_all (\<lambda>v. v < 256 ^ sizeof T) ws \<Longrightarrow>
   deserialize_typed_loop T (length ws) (concat (map (put T) ws) @ rest) (NumericBuilder T acc)
     = Inr (rest, NumericBuilder T (acc @ ws))"
  by (induction ws arbitrary: acc) (auto simp: get_put Append_def)

lemma select_typed_loop_eq:
  "list_all (\<lambda>x. x < length ptr) offset \<Longrightarrow>
   select_typed_loop T ptr offset (NumericBuilder T acc)
     = Inr (NumericBuilder T (acc @ map (\<lambda>x. ptr ! x) offset))"
  by (induction offset arbitrary: acc) (auto simp: Append_def)

lemma ConvertToArrowType_inj [simp]:
  "(ConvertToArrowType T = ConvertToArrowType T') = (T = T')"
  by (cases T; cases T') simp_all

lemma ConvertToArrowType_neq [simp]:
  "ConvertToArrowType T \<noteq> large_utf8" "ConvertToArrowType T \<noteq> null_type"
  "ConvertToArrowType T \<noteq> large_list t"
  "large_utf8 \<noteq> ConvertToArrowType T" "null_type \<noteq> ConvertToArrowType T"
  "large_list t \<noteq> ConvertToArrowType T"
  by (cases T; simp)+


lemma get_count: "n < 2 ^ 63 \<Longrightarrow> get int64_t (to_le 8 n @ rest) = Inr (n, rest)"
  using get_put [of n int64_t rest] by (simp add: put_def)

lemma get_size: "n < 2 ^ 63 \<Longrightarrow> get uint64_t (to_le 8 n @ rest) = Inr (n, rest)"
  using get_put [of n uint64_t rest] by (simp add: put_def)


lemma deserialize_typed_loop_cells:
  "list_all (cell_ok (ConvertToArrowType T)) cs \<Longrightarrow>
   deserialize_typed_loop T (length cs) (wire_column cs @ rest) (NumericBuilder T acc)
     = Inr (rest, fold append_cell cs (NumericBuilder T acc))"
proof (induction cs arbitrary: acc)
  case Nil
  then show ?case by (simp add: wire_column_def)
next
  case (Cons c cs)
  then obtain v where c: "c = NumericCell T v" and v: "v < 256 ^ sizeof T"
    by (cases c) auto
  have "get T (wire_column (c # cs) @ rest) = Inr (v, wire_column cs @ rest)"
    using get_put [OF v, of "wire_column cs @ rest"] by (simp add: c wire_column_def put_def)
  then show ?case
    using Cons by (simp add: c Append_def)
qed

lemma serialize_typed_loop_cells:
  "list_all (\<lambda>x. x < length vs) offset \<Longrightarrow>
   serialize_typed_loop T vs offset arc
     = Inr (arc @ wire_column (map (cell_at (NumericArray T vs)) offset))"
  by (simp add: serialize_typed_loop_eq wire_column_def put_def comp_def)

lemma select_typed_loop_cells:
  "list_all (\<lambda>x. x < length vs) offset \<Longrightarrow>
   select_typed_loop T vs offset (NumericBuilder T acc)
     = Inr (fold append_cell (map (cell_at (NumericArray T vs)) offset) (NumericBuilder T acc))"
  by (induction offset arbitrary: acc) (auto simp: Append_def)


lemma serialize_string_loop_cells:
  "list_all (\<lambda>x. x < length ss) offset \<Longrightarrow>
   serialize_string_loop ss offset arc
     = Inr (arc @ wire_column (map (cell_at (LargeStringArray ss)) offset))"
  by (induction offset arbitrary: arc) (auto simp: wire_column_def put_string_view_def put_def)

lemma select_string_loop_cells:
  "list_all (\<lambda>x. x < length ss) offset \<Longrightarrow>
   select_string_loop ss offset (LargeStringBuilder acc)
     = Inr (fold append_cell (map (cell_at (LargeStringArray ss)) offset) (LargeStringBuilder acc))"
  by (induction offset arbitrary: acc) auto

lemma deserialize_string_loop_cells:
  "list_all (cell_ok large_utf8) cs \<Longrightarrow>
   deserialize_string_loop (length cs) (wire_column cs @ rest) (LargeStringBuilder acc)
     = Inr (rest, fold append_cell cs (LargeStringBuilder acc))"
proof (induction cs arbitrary: acc)
  case Nil
  then show ?case by (simp add: wire_column_def)
next
  case (Cons c cs)
  then obtain s where c: "c = StringCell s" and s: "length s < 2 ^ 63"
    by (cases c) auto
  have "get_string_view (wire_column (c # cs) @ rest) = Inr (s, wire_column cs @ rest)"
    using get_string_view_put [OF s, of "wire_column cs @ rest"]
    by (simp add: c wire_column_def put_string_view_def put_def)
  then show ?case
    using Cons by (simp add: c)
qed


lemma fold_append_null:
  "list_all (cell_ok null_type) cs \<Longrightarrow>
   fold append_cell cs (NullBuilder n) = NullBuilder (n + length cs) \<and> wire_column cs = []"
proof (induction cs arbitrary: n)
  case Nil
  then show ?case by (simp add: wire_column_def)
next
  case (Cons c cs)
  then have c: "c = NullCell" by (cases c) auto
  show ?case using Cons by (simp add: c wire_column_def)
qed


lemma fold_put_to_le:
  "fold (\<lambda>val a. a @ put T val) vs arc = arc @ concat (map (to_le (sizeof T)) vs)"
  by (induction vs arbitrary: arc) (auto simp: put_def)

lemma deserialize_typed_loop_raw:
  "list_all (\<lambda>v. v < 256 ^ sizeof T) ws \<Longrightarrow>
   deserialize_typed_loop T (length ws) (concat (map (to_le (sizeof T)) ws) @ rest) (NumericBuilder T acc)
     = Inr (rest, NumericBuilder T (acc @ ws))"
  using deserialize_typed_loop_eq [of T ws rest acc] by (simp add: put_def [abs_def])

lemma deserialize_list_loop_cells:
  "list_all (cell_ok (large_list (ConvertToArrowType T))) cs \<Longrightarrow>
   (case deserialize_list_loop T (length cs) (wire_column cs @ rest) offs (NumericBuilder T ws) of
      Inl e \<Rightarrow> Inl e
    | Inr (arc', offs', vb') \<Rightarrow> Inr (arc', LargeListBuilder offs' vb'))
     = Inr (rest, fold append_cell cs (LargeListBuilder offs (NumericBuilder T ws)))"
proof (induction cs arbitrary: offs ws)
  case Nil
  then show ?case by (simp add: wire_column_def)
next
  case (Cons c cs)
  then obtain vs where c: "c = ListCell T vs" and l: "length vs < 2 ^ 63"
    and vs: "list_all (\<lambda>v. v < 256 ^ sizeof T) vs"
    by (cases c) auto
  have w: "wire_column (ListCell T vs # cs) @ rest
            = to_le 8 (length vs) @ (concat (map (to_le (sizeof T)) vs) @ (wire_column cs @ rest))"
    by (simp add: wire_column_def)
  have g: "get int64_t (wire_column (ListCell T vs # cs) @ rest)
            = Inr (length vs, concat (map (to_le (sizeof T)) vs) @ (wire_column cs @ rest))"
    unfolding w by (rule get_count [OF l])
  have d: "deserialize_selected_typed_items T
             (concat (map (to_le (sizeof T)) vs) @ (wire_column cs @ rest))
             (as_int64 (length vs)) (NumericBuilder T ws)
           = Inr (wire_column cs @ rest, NumericBuilder T (ws @ vs))"
    using deserialize_typed_loop_raw [OF vs] as_int64_small [OF l]
    by (simp add: deserialize_selected_typed_items_def)
  show ?case
    using Cons.IH [of "offs @ [length ws + length vs]" "ws @ vs"] Cons.prems
    unfolding c by (simp add: g d)
qed

lemma fold_to_le:
  "fold (\<lambda>val a. a @ to_le k val) vs arc = arc @ concat (map (to_le k) vs)"
  by (induction vs arbitrary: arc) auto

lemma serialize_list_loop_cells:
  "list_all (\<lambda>x. Suc x < length offs \<and> offs ! x \<le> offs ! Suc x \<and> offs ! Suc x \<le> length vs) offset \<Longrightarrow>
   serialize_list_loop T offs (NumericArray T vs) offset arc
     = Inr (arc @ wire_column (map (cell_at (LargeListArray offs (NumericArray T vs))) offset))"
proof (induction offset arbitrary: arc)
  case Nil
  then show ?case by (simp add: wire_column_def)
next
  case (Cons x offset)
  have len: "length (take (offs ! Suc x - offs ! x) (drop (offs ! x) vs)) = offs ! Suc x - offs ! x"
    using Cons.prems by (auto simp: min_def)
  have "serialize_selected_typed_items_all T (arc @ put int64_t (offs ! Suc x - offs ! x))
          (Slice (NumericArray T vs) (offs ! x) (offs ! Suc x - offs ! x))
        = Inr (arc @ wire_encoding (cell_at (LargeListArray offs (NumericArray T vs)) x))"
    using len by (simp add: serialize_selected_typed_items_all_def put_def [abs_def] fold_to_le)
  then show ?case
    using Cons by (simp add: wire_column_def Let_def)
qed

lemma select_list_loop_cells:
  "list_all (\<lambda>x. Suc x < length offs) offset \<Longrightarrow>
   (case select_list_loop T offs (NumericArray T vs) offset boffs (NumericBuilder T ws) of
      Inl e \<Rightarrow> Inl e
    | Inr (boffs', vb') \<Rightarrow> Inr (LargeListBuilder boffs' vb'))
   = Inr (fold append_cell (map (cell_at (LargeListArray offs (NumericArray T vs))) offset)
            (LargeListBuilder boffs (NumericBuilder T ws)))"
proof (induction offset arbitrary: boffs ws)
  case Nil
  then show ?case by simp
next
  case (Cons x offset)
  show ?case
    using Cons
    by (simp add: select_typed_items_all_def)
qed

lemma numeric_builder_type:
  "builder_type b = ConvertToArrowType T \<Longrightarrow> \<exists>acc. b = NumericBuilder T acc"
  by (cases b) auto

lemma numeric_array_type:
  "array_type a = ConvertToArrowType T \<Longrightarrow> \<exists>vs. a = NumericArray T vs"
  by (cases a) auto

lemma DeserializeSelectedItems_numeric:
  "list_all (cell_ok (ConvertToArrowType T)) cs \<Longrightarrow>
   DeserializeSelectedItems (wire_column cs @ rest) (int (length cs)) (NumericBuilder T acc)
     = Inr (rest, fold append_cell cs (NumericBuilder T acc))"
  by (cases T)
     (simp_all add: DeserializeSelectedItems_def deserialize_selected_typed_items_def
        deserialize_typed_loop_cells)

lemma DeserializeSelectedItems_string:
  "list_all (cell_ok large_utf8) cs \<Longrightarrow>
   DeserializeSelectedItems (wire_column cs @ rest) (int (length cs)) (LargeStringBuilder acc)
     = Inr (rest, fold append_cell cs (LargeStringBuilder acc))"
  by (simp add: DeserializeSelectedItems_def deserialize_string_items_def
        deserialize_string_loop_cells)

lemma DeserializeSelectedItems_null:
  "list_all (cell_ok null_type) cs \<Longrightarrow>
   DeserializeSelectedItems (wire_column cs @ rest) (int (length cs)) (NullBuilder n)
     = Inr (rest, fold append_cell cs (NullBuilder n))"
  by (simp add: DeserializeSelectedItems_def deserialize_null_items_def fold_append_null)

lemma DeserializeSelectedItems_list:
  "list_all (cell_ok (large_list (ConvertToArrowType T))) cs \<Longrightarrow>
   DeserializeSelectedItems (wire_column cs @ rest) (int (length cs))
       (LargeListBuilder offs (NumericBuilder T ws))
     = Inr (rest, fold append_cell cs (LargeListBuilder offs (NumericBuilder T ws)))"
  using deserialize_list_loop_cells [of T cs rest offs ws]
  by (cases T) (simp_all add: DeserializeSelectedItems_def)

lemma supported_cases:
  assumes "supported t"
  obtains (numeric) T where "t = ConvertToArrowType T"
  | (string) "t = large_utf8"
  | (null) "t = null_type"
  | (list) T where "t = large_list (ConvertToArrowType T)"
proof -
  consider "t = ConvertToArrowType double" | "t = ConvertToArrowType float"
    | "t = ConvertToArrowType int64_t" | "t = ConvertToArrowType int32_t"
    | "t = ConvertToArrowType uint64_t" | "t = ConvertToArrowType uint32_t"
    | "t = large_utf8" | "t = null_type"
    | "t = large_list (ConvertToArrowType double)" | "t = large_list (ConvertToArrowType float)"
    | "t = large_list (ConvertToArrowType int64_t)" | "t = large_list (ConvertToArrowType int32_t)"
    | "t = large_list (ConvertToArrowType uint64_t)" | "t = large_list (ConvertToArrowType uint32_t)"
    using assms unfolding supported_def by auto
  then show ?thesis
    by cases (rule numeric string null list, assumption)+
qed

lemma DeserializeSelectedItems_cells:
  assumes "list_all (cell_ok t) cs" and "supported t" and "builder_type b = t"
  shows "DeserializeSelectedItems (wire_column cs @ rest) (int (length cs)) b
           = Inr (rest, fold append_cell cs b)"
  using assms(2)
proof (cases rule: supported_cases)
  case (numeric T)
  then obtain acc where "b = NumericBuilder T acc"
    using assms(3) numeric_builder_type by blast
  then show ?thesis using assms(1) numeric by (simp add: DeserializeSelectedItems_numeric)
next
  case string
  then obtain acc where "b = LargeStringBuilder acc"
    using assms(3) by (cases b) auto
  then show ?thesis using assms(1) string by (simp add: DeserializeSelectedItems_string)
next
  case null
  then obtain n where "b = NullBuilder n"
    using assms(3) by (cases b) auto
  then show ?thesis using assms(1) null by (simp add: DeserializeSelectedItems_null)
next
  case (list T)
  then obtain offs vb where b: "b = LargeListBuilder offs vb" and "builder_type vb = ConvertToArrowType T"
    using assms(3) by (cases b) auto
  then obtain ws where "vb = NumericBuilder T ws"
    using numeric_builder_type by blast
  then show ?thesis using assms(1) list b by (simp add: DeserializeSelectedItems_list)
qed


lemma sorted_nth_le_last:
  assumes "sorted offs" and "i < length offs"
  shows "offs ! i \<le> last offs"
proof -
  have ne: "offs \<noteq> []" using assms(2) by auto
  have "offs ! i \<le> offs ! (length offs - 1)"
    using assms by (intro sorted_nth_mono) auto
  then show ?thesis using ne by (simp add: last_conv_nth)
qed

lemma list_offsets_ok:
  assumes "wf_array (LargeListArray offs (NumericArray T vs))"
    and "list_all (\<lambda>x. x < length offs - 1) offset"
  shows "list_all (\<lambda>x. Suc x < length offs \<and> offs ! x \<le> offs ! Suc x \<and> offs ! Suc x \<le> length vs) offset"
proof -
  have s: "sorted offs" and l: "last offs \<le> length vs" using assms(1) by simp_all
  have "Suc x < length offs \<and> offs ! x \<le> offs ! Suc x \<and> offs ! Suc x \<le> length vs"
    if "x < length offs - 1" for x
  proof -
    have a: "Suc x < length offs" using that by simp
    have "offs ! x \<le> offs ! Suc x" using s a by (simp add: sorted_nth_mono)
    moreover have "offs ! Suc x \<le> last offs" by (rule sorted_nth_le_last [OF s a])
    ultimately show ?thesis using a l by simp
  qed
  then show ?thesis using assms(2) by (simp add: list_all_iff)
qed

lemma SerializeSelectedItems_cells:
  assumes "wf_array a" and "supported (array_type a)"
    and "list_all (\<lambda>x. x < array_length a) offset"
  shows "SerializeSelectedItems arc a offset = Inr (arc @ wire_column (map (cell_at a) offset))"
  using assms(2)
proof (cases rule: supported_cases)
  case (numeric T)
  then obtain vs where a: "a = NumericArray T vs" using numeric_array_type by blast
  show ?thesis using assms(3) unfolding a
    by (cases T)
       (simp_all add: SerializeSelectedItems_def serialize_selected_typed_items_def
          serialize_typed_loop_cells)
next
  case string
  then obtain ss where a: "a = LargeStringArray ss" by (cases a) auto
  show ?thesis using assms(3) unfolding a
    by (simp add: SerializeSelectedItems_def serialize_string_loop_cells)
next
  case null
  then obtain n where a: "a = NullArray n" by (cases a) auto
  show ?thesis unfolding a
    by (simp add: SerializeSelectedItems_def serialize_null_items_def wire_column_def)
next
  case (list T)
  then obtain offs vals where a: "a = LargeListArray offs vals"
    and "array_type vals = ConvertToArrowType T" by (cases a) auto
  then obtain vs where v: "vals = NumericArray T vs" using numeric_array_type by blast
  have "list_all (\<lambda>x. Suc x < length offs \<and> offs ! x \<le> offs ! Suc x \<and> offs ! Suc x \<le> length vs) offset"
    using list_offsets_ok assms(1,3) unfolding a v by simp
  then show ?thesis unfolding a v
    by (cases T) (simp_all add: SerializeSelectedItems_def serialize_list_loop_cells)
qed

lemma SelectItems_cells:
  assumes "wf_array a" and "supported (array_type a)"
    and "list_all (\<lambda>x. x < array_length a) offset" and "builder_type b = array_type a"
  shows "SelectItems a offset b = Inr (fold append_cell (map (cell_at a) offset) b)"
  using assms(2)
proof (cases rule: supported_cases)
  case (numeric T)
  then obtain vs where a: "a = NumericArray T vs" using numeric_array_type by blast
  obtain acc where b: "b = NumericBuilder T acc"
    using assms(4) numeric numeric_builder_type by metis
  show ?thesis using assms(3) unfolding a b
    by (cases T)
       (simp_all add: SelectItems_def select_typed_items_def select_typed_loop_cells)
next
  case string
  then obtain ss where a: "a = LargeStringArray ss" by (cases a) auto
  obtain acc where b: "b = LargeStringBuilder acc" using assms(4) string by (cases b) auto
  show ?thesis using assms(3) unfolding a b
    by (simp add: SelectItems_def select_string_loop_cells)
next
  case null
  then obtain n where a: "a = NullArray n" by (cases a) auto
  obtain k where b: "b = NullBuilder k" using assms(4) null by (cases b) auto
  have "list_all (cell_ok null_type) (map (cell_at (NullArray n)) offset)"
    by (simp add: list_all_iff)
  then show ?thesis unfolding a b
    by (simp add: SelectItems_def select_null_items_def fold_append_null)
next
  case (list T)
  then obtain offs vals where a: "a = LargeListArray offs vals"
    and "array_type vals = ConvertToArrowType T" by (cases a) auto
  then obtain vs where v: "vals = NumericArray T vs" using numeric_array_type by blast
  obtain boffs vb where b: "b = LargeListBuilder boffs vb" and "builder_type vb = ConvertToArrowType T"
    using assms(4) list by (cases b) auto
  then obtain ws where w: "vb = NumericBuilder T ws" using numeric_builder_type by blast
  have "list_all (\<lambda>x. Suc x < length offs) offset"
    using assms(3) unfolding a by (auto simp: list_all_iff)
  then show ?thesis unfolding a v b w
    using select_list_loop_cells [of offs offset T vs boffs ws]
    by (cases T) (simp_all add: SelectItems_def)
qed

lemma cell_at_ok:
  assumes "wf_array a" and "supported (array_type a)" and "x < array_length a"
  shows "cell_ok (array_type a) (cell_at a x)"
  using assms(2)
proof (cases rule: supported_cases)
  case (numeric T)
  then obtain vs where a: "a = NumericArray T vs" using numeric_array_type by blast
  show ?thesis using assms(1,3) unfolding a by (simp add: list_all_length)
next
  case string
  then obtain ss where a: "a = LargeStringArray ss" by (cases a) auto
  show ?thesis using assms(1,3) unfolding a by (simp add: list_all_length)
next
  case null
  then obtain n where a: "a = NullArray n" by (cases a) auto
  show ?thesis unfolding a by simp
next
  case (list T)
  then obtain offs vals where a: "a = LargeListArray offs vals"
    and "array_type vals = ConvertToArrowType T" by (cases a) auto
  then obtain vs where v: "vals = NumericArray T vs" using numeric_array_type by blast
  have s: "sorted offs" and l: "last offs < 2 ^ 63" and vs: "list_all (\<lambda>v. v < 256 ^ sizeof T) vs"
    using assms(1) unfolding a v by simp_all
  have sx: "Suc x < length offs" using assms(3) unfolding a by simp
  have "offs ! Suc x \<le> last offs" by (rule sorted_nth_le_last [OF s sx])
  then have len: "offs ! Suc x - offs ! x < 2 ^ 63" using l by simp
  have "set (take (offs ! Suc x - offs ! x) (drop (offs ! x) vs)) \<subseteq> set vs"
    by (meson set_take_subset set_drop_subset subset_trans)
  then have "list_all (\<lambda>v. v < 256 ^ sizeof T) (take (offs ! Suc x - offs ! x) (drop (offs ! x) vs))"
    using vs by (auto simp: list_all_iff)
  then show ?thesis unfolding a v using len by simp
qed

lemma unsupported_Fatal:
  "\<not> supported (array_type a) \<Longrightarrow>
   SerializeSelectedItems arc a offset = Inl Fatal \<and> SelectItems a offset b = Inl Fatal"
  by (simp add: supported_def SerializeSelectedItems_def SelectItems_def)

lemma serialize_columns_cells:
  "list_all (\<lambda>a. wf_array a \<and> supported (array_type a) \<and> array_length a = n) cols \<Longrightarrow>
   list_all (\<lambda>x. x < n) offset \<Longrightarrow>
   serialize_columns cols offset arc
     = Inr (arc @ concat (map wire_column (selected_cells cols offset)))"
  by (induction cols arbitrary: arc)
     (simp_all add: selected_cells_def SerializeSelectedItems_cells)

lemma select_fields_cells:
  "list_all (\<lambda>a. wf_array a \<and> supported (array_type a) \<and> array_length a = n) cols \<Longrightarrow>
   list_all (\<lambda>x. x < n) offset \<Longrightarrow>
   map builder_type bs = map array_type cols \<Longrightarrow>
   select_fields cols offset bs
     = Inr (map2 (\<lambda>cs b. fold append_cell cs b) (selected_cells cols offset) bs)"
proof (induction cols arbitrary: bs)
  case Nil
  then show ?case by (simp add: selected_cells_def)
next
  case (Cons col cols)
  then obtain b bs' where bs: "bs = b # bs'" by (cases bs) auto
  have "SelectItems col offset b = Inr (fold append_cell (map (cell_at col) offset) b)"
    using Cons.prems unfolding bs by (intro SelectItems_cells) auto
  moreover have "select_fields cols offset bs'
     = Inr (map2 (\<lambda>cs b. fold append_cell cs b) (selected_cells cols offset) bs')"
    using Cons.prems unfolding bs by (intro Cons.IH) auto
  ultimately show ?case unfolding bs by (simp add: selected_cells_def)
qed

lemma deserialize_fields_cells:
  "list_all2 (\<lambda>cs b. supported (builder_type b) \<and> list_all (cell_ok (builder_type b)) cs
                  \<and> length cs = n) css bs \<Longrightarrow>
   deserialize_fields (int n) bs (concat (map wire_column css) @ rest)
     = Inr (rest, map2 (\<lambda>cs b. fold append_cell cs b) css bs)"
proof (induction css bs rule: list_all2_induct)
  case Nil
  then show ?case by simp
next
  case (Cons cs css b bs)
  have "DeserializeSelectedItems (wire_column cs @ (concat (map wire_column css) @ rest)) (int (length cs)) b
         = Inr (concat (map wire_column css) @ rest, fold append_cell cs b)"
    using Cons.hyps(1) by (intro DeserializeSelectedItems_cells) auto
  then show ?case using Cons by simp
qed

lemma builder_type_MakeBuilder [simp]: "builder_type (MakeBuilder t) = t"
  by (induction t) simp_all

lemma builder_length_MakeBuilder [simp]: "builder_length (MakeBuilder t) = 0"
  by (cases t) simp_all

lemma array_length_Finish [simp]: "array_length (Finish b) = builder_length b"
  by (cases b) simp_all

lemma array_type_Finish [simp]: "array_type (Finish b) = builder_type b"
  by (induction b) simp_all

lemma builder_type_append_cell [simp]: "builder_type (append_cell c b) = builder_type b"
  by (induction c b rule: append_cell.induct) simp_all

lemma builder_type_fold_append_cell [simp]: "builder_type (fold append_cell cs b) = builder_type b"
  by (induction cs arbitrary: b) simp_all

lemma builder_length_append_cell:
  assumes "supported (builder_type b)" and c: "cell_ok (builder_type b) c"
  shows "builder_length (append_cell c b) = Suc (builder_length b)"
  using assms(1)
proof (cases rule: supported_cases)
  case (numeric T)
  then show ?thesis using c numeric_builder_type [of b T] by (cases c) auto
next
  case string
  then show ?thesis using c by (cases c; cases b) auto
next
  case null
  then show ?thesis using c by (cases c; cases b) auto
next
  case (list T)
  then obtain offs vb where b: "b = LargeListBuilder offs vb" and "builder_type vb = ConvertToArrowType T"
    by (cases b) auto
  then obtain ws where "vb = NumericBuilder T ws" using numeric_builder_type by blast
  then show ?thesis using c b list by (cases c) auto
qed

lemma builder_length_fold_append_cell:
  "supported (builder_type b) \<Longrightarrow> list_all (cell_ok (builder_type b)) cs \<Longrightarrow>
   builder_length (fold append_cell cs b) = builder_length b + length cs"
  by (induction cs arbitrary: b) (simp_all add: builder_length_append_cell)

lemma Flush_same_length:
  "list_all (\<lambda>b. builder_length b = n) bs \<Longrightarrow>
   Flush sch bs = Inr \<lparr> schema = sch, num_rows = (if bs = [] then 0 else n),
                         columns = map Finish bs \<rparr>"
proof -
  assume a: "list_all (\<lambda>b. builder_length b = n) bs"
  then have all: "\<forall>x \<in> set (map Finish bs). array_length x = n"
    by (auto simp: list_all_iff)
  have "\<not> (\<exists>x \<in> set (map Finish bs). array_length x \<noteq> array_length (hd (map Finish bs)))"
  proof (cases bs)
    case Nil
    then show ?thesis by simp
  next
    case (Cons b bs')
    then have "array_length (hd (map Finish bs)) = n" using a by simp
    then show ?thesis using all by simp
  qed
  moreover have "bs \<noteq> [] \<Longrightarrow> array_length (last (map Finish bs)) = n"
    using all by (metis last_in_set map_is_Nil_conv)
  ultimately show ?thesis
    unfolding Flush_def Let_def by auto
qed

lemma SerializeSelectedRows_cells:
  assumes "wf_record_batch rb" and "supported_schema (schema rb)"
    and "list_all (\<lambda>x. x < num_rows rb) offset"
  shows "SerializeSelectedRows arc rb offset
           = Inr (arc @ wire_message (length offset) (selected_cells (columns rb) offset))"
proof -
  have "list_all (\<lambda>a. supported (array_type a)) (columns rb)"
    using assms(1,2) unfolding wf_record_batch_def supported_schema_def
    by (metis (mono_tags, lifting) list_all_length length_map nth_map)
  then have "list_all (\<lambda>a. wf_array a \<and> supported (array_type a) \<and> array_length a = num_rows rb) (columns rb)"
    using assms(1) unfolding wf_record_batch_def by (auto simp: list_all_iff)
  then show ?thesis
    using assms(3)
    by (simp add: SerializeSelectedRows_def serialize_columns_cells wire_message_def put_def)
qed

lemma columns_supported:
  assumes "wf_record_batch rb" and "supported_schema (schema rb)"
  shows "list_all (\<lambda>a. wf_array a \<and> supported (array_type a) \<and> array_length a = num_rows rb) (columns rb)"
proof -
  have "list_all (\<lambda>a. supported (array_type a)) (columns rb)"
    using assms unfolding wf_record_batch_def supported_schema_def
    by (metis (mono_tags, lifting) list_all_length length_map nth_map)
  then show ?thesis
    using assms(1) unfolding wf_record_batch_def by (auto simp: list_all_iff)
qed

lemma selected_cells_ok:
  assumes "list_all (\<lambda>a. wf_array a \<and> supported (array_type a) \<and> array_length a = n) cols"
    and "list_all (\<lambda>x. x < n) offset"
  shows "list_all2 (\<lambda>cs t. supported t \<and> list_all (cell_ok t) cs \<and> length cs = length offset)
           (selected_cells cols offset) (map array_type cols)"
  using assms
  by (induction cols) (auto simp: selected_cells_def list_all_iff cell_at_ok)

lemma fields_built:
  assumes "list_all2 (\<lambda>cs t. supported t \<and> list_all (cell_ok t) cs \<and> length cs = n) css (map snd sch)"
  shows "list_all (\<lambda>b. builder_length b = n)
           (map2 (\<lambda>cs b. fold append_cell cs b) css (map (\<lambda>f. MakeBuilder (snd f)) sch))
       \<and> map Finish (map2 (\<lambda>cs b. fold append_cell cs b) css (map (\<lambda>f. MakeBuilder (snd f)) sch))
           = built_columns sch css"
  using assms
proof (induction sch arbitrary: css)
  case Nil
  then show ?case by (simp add: built_columns_def)
next
  case (Cons f sch)
  then obtain cs css' where css: "css = cs # css'" by (cases css) auto
  have "builder_length (fold append_cell cs (MakeBuilder (snd f))) = n"
    using Cons.prems unfolding css by (simp add: builder_length_fold_append_cell)
  then show ?case
    using Cons.IH [of css'] Cons.prems unfolding css by (simp add: built_columns_def)
qed

lemma Flush_built:
  assumes "list_all2 (\<lambda>cs t. supported t \<and> list_all (cell_ok t) cs \<and> length cs = n) css (map snd sch)"
  shows "Flush sch (map2 (\<lambda>cs b. fold append_cell cs b) css (map (\<lambda>f. MakeBuilder (snd f)) sch))
         = Inr \<lparr> schema = sch, num_rows = (if sch = [] then 0 else n),
                   columns = built_columns sch css \<rparr>"
proof -
  let ?bs = "map2 (\<lambda>cs b. fold append_cell cs b) css (map (\<lambda>f. MakeBuilder (snd f)) sch)"
  have len: "length css = length sch"
    using assms by (auto dest: list_all2_lengthD)
  have a: "list_all (\<lambda>b. builder_length b = n) ?bs"
    using fields_built [OF assms] by (rule conjunct1)
  have b: "map Finish ?bs = built_columns sch css"
    using fields_built [OF assms] by (rule conjunct2)
  have e: "(?bs = []) = (sch = [])"
    using len by (cases sch; cases css) auto
  show ?thesis
    unfolding Flush_same_length [OF a] b e ..
qed

lemma SelectRows_cells:
  assumes "wf_record_batch rb" and "supported_schema (schema rb)"
    and "list_all (\<lambda>x. x < num_rows rb) offset"
  shows "SelectRows rb offset
           = Inr \<lparr> schema = schema rb,
                   num_rows = (if schema rb = [] then 0 else length offset),
                   columns = built_columns (schema rb) (selected_cells (columns rb) offset) \<rparr>"
proof -
  let ?bs = "map (\<lambda>f. MakeBuilder (snd f)) (schema rb)"
  let ?css = "selected_cells (columns rb) offset"
  have cols: "list_all (\<lambda>a. wf_array a \<and> supported (array_type a) \<and> array_length a = num_rows rb) (columns rb)"
    by (rule columns_supported [OF assms(1,2)])
  have ty: "map builder_type ?bs = map array_type (columns rb)"
    using assms(1) unfolding wf_record_batch_def by (simp add: comp_def)
  have sel: "select_fields (columns rb) offset ?bs = Inr (map2 (\<lambda>cs b. fold append_cell cs b) ?css ?bs)"
    by (rule select_fields_cells [OF cols assms(3) ty])
  have ok: "list_all2 (\<lambda>cs t. supported t \<and> list_all (cell_ok t) cs \<and> length cs = length offset)
              ?css (map snd (schema rb))"
    using selected_cells_ok [OF cols assms(3)] assms(1) unfolding wf_record_batch_def by simp
  have len: "length ?css = length (schema rb)"
    using ok by (auto dest: list_all2_lengthD)
  have fl: "Flush (schema rb) (map2 (\<lambda>cs b. fold append_cell cs b) ?css ?bs)
         = Inr \<lparr> schema = schema rb,
                   num_rows = (if schema rb = [] then 0 else length offset),
                   columns = built_columns (schema rb) ?css \<rparr>"
    by (rule Flush_built [OF ok])
  show ?thesis
    by (simp add: SelectRows_def RecordBatchBuilder_Make_def sel fl)
qed

lemma DeserializeSelectedRows_cells:
  assumes "list_all2 (\<lambda>cs t. supported t \<and> list_all (cell_ok t) cs \<and> length cs = n) css (map snd sch)"
    and "n < 2 ^ 63"
  shows "DeserializeSelectedRows (wire_message n css @ rest) sch
           = Inr (rest, \<lparr> schema = sch, num_rows = (if sch = [] then 0 else n),
                           columns = built_columns sch css \<rparr>)"
proof -
  let ?bs = "map (\<lambda>f. MakeBuilder (snd f)) sch"
  have g: "get int64_t (wire_message n css @ rest) = Inr (n, concat (map wire_column css) @ rest)"
    using get_count [OF assms(2)] by (simp add: wire_message_def)
  have "list_all2 (\<lambda>cs b. supported (builder_type b) \<and> list_all (cell_ok (builder_type b)) cs
                  \<and> length cs = n) css ?bs"
    using assms(1) by (simp add: list_all2_map2)
  then have d: "deserialize_fields (int n) ?bs (concat (map wire_column css) @ rest)
     = Inr (rest, map2 (\<lambda>cs b. fold append_cell cs b) css ?bs)"
    by (rule deserialize_fields_cells)
  have len: "length css = length sch"
    using assms(1) by (auto dest: list_all2_lengthD)
  have fl: "Flush sch (map2 (\<lambda>cs b. fold append_cell cs b) css ?bs)
         = Inr \<lparr> schema = sch, num_rows = (if sch = [] then 0 else n),
                   columns = built_columns sch css \<rparr>"
    by (rule Flush_built [OF assms(1)])
  show ?thesis
    using as_int64_small [OF assms(2)]
    by (simp add: DeserializeSelectedRows_def g RecordBatchBuilder_Make_def d fl)
qed

lemma serialize_columns_unsupported:
  "list_all (\<lambda>a. wf_array a \<and> array_length a = n) cols \<Longrightarrow>
   list_all (\<lambda>x. x < n) offset \<Longrightarrow>
   \<not> list_all (\<lambda>a. supported (array_type a)) cols \<Longrightarrow>
   serialize_columns cols offset arc = Inl Fatal"
proof (induction cols arbitrary: arc)
  case Nil
  then show ?case by simp
next
  case (Cons col cols)
  show ?case
  proof (cases "supported (array_type col)")
    case True
    then have "SerializeSelectedItems arc col offset
                 = Inr (arc @ wire_column (map (cell_at col) offset))"
      using Cons.prems by (intro SerializeSelectedItems_cells) auto
    then show ?thesis using Cons True by simp
  next
    case False
    then show ?thesis by (simp add: unsupported_Fatal)
  qed
qed

lemma select_fields_unsupported:
  "list_all (\<lambda>a. wf_array a \<and> array_length a = n) cols \<Longrightarrow>
   list_all (\<lambda>x. x < n) offset \<Longrightarrow>
   map builder_type bs = map array_type cols \<Longrightarrow>
   \<not> list_all (\<lambda>a. supported (array_type a)) cols \<Longrightarrow>
   select_fields cols offset bs = Inl Fatal"
proof (induction cols arbitrary: bs)
  case Nil
  then show ?case by simp
next
  case (Cons col cols)
  then obtain b bs' where bs: "bs = b # bs'" by (cases bs) auto
  show ?case
  proof (cases "supported (array_type col)")
    case True
    then have "SelectItems col offset b = Inr (fold append_cell (map (cell_at col) offset) b)"
      using Cons.prems unfolding bs by (intro SelectItems_cells) auto
    moreover have "select_fields cols offset bs' = Inl Fatal"
      using Cons.prems True unfolding bs by (intro Cons.IH) auto
    ultimately show ?thesis unfolding bs by simp
  next
    case False
    then show ?thesis unfolding bs by (simp add: unsupported_Fatal)
  qed
qed


lemma wire_path_eq_SelectRows:
  assumes "wf_record_batch rb" and "list_all (\<lambda>x. x < num_rows rb) offset"
    and "length offset < 2 ^ 63"
  shows "serialize_then_deserialize rb offset (schema rb) = SelectRows rb offset
       \<and> (supported_schema (schema rb) \<longrightarrow> (\<exists>out. SelectRows rb offset = Inr out))"
proof (cases "supported_schema (schema rb)")
  case True
  let ?css = "selected_cells (columns rb) offset"
  have cols: "list_all (\<lambda>a. wf_array a \<and> supported (array_type a) \<and> array_length a = num_rows rb) (columns rb)"
    by (rule columns_supported [OF assms(1) True])
  have ok: "list_all2 (\<lambda>cs t. supported t \<and> list_all (cell_ok t) cs \<and> length cs = length offset)
              ?css (map snd (schema rb))"
    using selected_cells_ok [OF cols assms(2)] assms(1) unfolding wf_record_batch_def by simp
  have s: "SerializeSelectedRows [] rb offset = Inr (wire_message (length offset) ?css)"
    using SerializeSelectedRows_cells [OF assms(1) True assms(2), of "[]"] by simp
  have d: "DeserializeSelectedRows (wire_message (length offset) ?css) (schema rb)
        = Inr ([], \<lparr> schema = schema rb,
                       num_rows = (if schema rb = [] then 0 else length offset),
                       columns = built_columns (schema rb) ?css \<rparr>)"
    using DeserializeSelectedRows_cells [OF ok assms(3), of "[]"] by simp
  show ?thesis
    using True SelectRows_cells [OF assms(1) True assms(2)]
    by (simp add: serialize_then_deserialize_def s d)
next
  case False
  have cols: "list_all (\<lambda>a. wf_array a \<and> array_length a = num_rows rb) (columns rb)"
    using assms(1) unfolding wf_record_batch_def by (auto simp: list_all_iff)
  have un: "\<not> list_all (\<lambda>a. supported (array_type a)) (columns rb)"
  proof
    assume "list_all (\<lambda>a. supported (array_type a)) (columns rb)"
    then have "list_all supported (map array_type (columns rb))" by (simp add: list_all_iff)
    then have "list_all supported (map snd (schema rb))"
      using assms(1) unfolding wf_record_batch_def by simp
    then show False using False unfolding supported_schema_def by (simp add: list_all_iff)
  qed
  have ty: "map builder_type (map (\<lambda>f. MakeBuilder (snd f)) (schema rb)) = map array_type (columns rb)"
    using assms(1) unfolding wf_record_batch_def by (simp add: comp_def)
  have "SerializeSelectedRows [] rb offset = Inl Fatal"
    unfolding SerializeSelectedRows_def
    by (rule serialize_columns_unsupported [OF cols assms(2) un])
  moreover have "SelectRows rb offset = Inl Fatal"
    using select_fields_unsupported [OF cols assms(2) ty un]
    by (simp add: SelectRows_def RecordBatchBuilder_Make_def)
  ultimately show ?thesis using False by (simp add: serialize_then_deserialize_def)
qed

lemma wf_example_batch: "wf_record_batch example_batch"
  by (simp add: wf_record_batch_def example_batch_def example_schema_def)

lemma supported_example: "supported_schema example_schema"
  by (simp add: supported_schema_def example_schema_def supported_def)

lemma SelectRows_example:
  "SelectRows example_batch [1, 0, 1] =
     Inr \<lparr> schema = example_schema, num_rows = 3,
            columns = [NumericArray int64_t [20, 10, 20],
                  LargeStringArray [[98, 99], [97], [98, 99]],
                  NullArray 3,
                  LargeListArray [2, 5, 7, 7] (NumericArray int32_t [10, 11, 7, 8, 9, 10, 11])] \<rparr>"
  by (simp add: SelectRows_def RecordBatchBuilder_Make_def example_batch_def example_schema_def
      SelectItems_def select_typed_items_def select_null_items_def Append_def select_typed_items_all_def Flush_def)

text \<open>
  Claim C2. For a well-formed record batch and offsets that are valid row indices (fewer
  than \<open>2 ^ 63\<close> of them, so that the count fits the signed 64-bit field), serializing the
  selected rows and deserializing them with the batch's schema gives what \<open>SelectRows\<close>
  gives: the same batch when every column type is supported (the two paths make the same
  builder calls), and the same abort on the first column of an unsupported type otherwise.
\<close>

theorem select_rows_equals_wire_path:
  assumes "wf_record_batch rb" and "list_all (\<lambda>x. x < num_rows rb) offset"
    and "length offset < 2 ^ 63"
  shows "serialize_then_deserialize rb offset (schema rb) = SelectRows rb offset
       \<and> (supported_schema (schema rb) \<longrightarrow> (\<exists>out. SelectRows rb offset = Inr out))"
  by (rule wire_path_eq_SelectRows [OF assms])

theorem select_rows_equals_wire_path_witness:
  "wf_record_batch example_batch \<and> list_all (\<lambda>x. x < num_rows example_batch) [1, 0, 1]
   \<and> length [1, 0, 1 :: nat] < 2 ^ 63
   \<and> serialize_then_deserialize example_batch [1, 0, 1] (schema example_batch)
       = SelectRows example_batch [1, 0, 1]
   \<and> supported_schema (schema example_batch)
   \<and> (\<exists>out. SelectRows example_batch [1, 0, 1] = Inr out)"
proof -
  have w: "wf_record_batch example_batch" by (rule wf_example_batch)
  have v: "list_all (\<lambda>x. x < num_rows example_batch) [1, 0, 1]"
    by (simp add: example_batch_def)
  have l: "length [1, 0, 1 :: nat] < 2 ^ 63" by simp
  have s: "supported_schema (schema example_batch)"
    using supported_example by (simp add: example_batch_def)
  show ?thesis
    using select_rows_equals_wire_path [OF w v l] w v l s by simp
qed

lemma wf_list_batch: "wf_record_batch list_batch"
  by (simp add: wf_record_batch_def list_batch_def)

lemma fold_append_numeric:
  "fold append_cell (map (NumericCell T) ws) (NumericBuilder T' acc) = NumericBuilder T' (acc @ ws)"
  by (induction ws arbitrary: acc) simp_all

lemma fold_append_string:
  "fold append_cell (map StringCell ws) (LargeStringBuilder acc) = LargeStringBuilder (acc @ ws)"
  by (induction ws arbitrary: acc) simp_all

lemma fold_append_nulls:
  "fold append_cell (map (\<lambda>x. NullCell) xs) (NullBuilder n) = NullBuilder (n + length xs)"
  by (induction xs arbitrary: n) simp_all

lemma MakeBuilder_numeric [simp]: "MakeBuilder (ConvertToArrowType T) = NumericBuilder T []"
  by (cases T) simp_all

lemma rebuild_column:
  assumes "scalar_type (array_type a)"
  shows "Finish (fold append_cell (map (cell_at a) [0..<array_length a]) (MakeBuilder (array_type a))) = a"
proof (cases a)
  case (NumericArray T vs)
  have "map (cell_at (NumericArray T vs)) [0..<length vs] = map (NumericCell T) (map ((!) vs) [0..<length vs])"
    by simp
  then show ?thesis
    unfolding NumericArray by (simp only: array_length.simps array_type.simps MakeBuilder_numeric
        fold_append_numeric map_nth Finish.simps append_Nil)
next
  case (LargeStringArray ss)
  have "map (cell_at (LargeStringArray ss)) [0..<length ss] = map StringCell (map ((!) ss) [0..<length ss])"
    by simp
  then show ?thesis
    unfolding LargeStringArray by (simp only: array_length.simps array_type.simps MakeBuilder.simps
        fold_append_string map_nth Finish.simps append_Nil)
next
  case (NullArray n)
  have "map (cell_at (NullArray n)) [0..<n] = map (\<lambda>x. NullCell) [0..<n]" by simp
  then show ?thesis
    unfolding NullArray by (simp add: fold_append_nulls del: map_eq_conv)
next
  case (LargeListArray offs vals)
  then show ?thesis using assms by (simp add: scalar_type_def)
qed

lemma rebuild_columns:
  "list_all (\<lambda>a. scalar_type (array_type a) \<and> array_length a = n) cols \<Longrightarrow>
   map snd sch = map array_type cols \<Longrightarrow>
   built_columns sch (selected_cells cols [0..<n]) = cols"
proof (induction cols arbitrary: sch)
  case Nil
  then show ?case by (simp add: built_columns_def selected_cells_def)
next
  case (Cons a cols)
  then obtain f sch' where sch: "sch = f # sch'" by (cases sch) auto
  have t: "snd f = array_type a" using Cons.prems unfolding sch by simp
  have "Finish (fold append_cell (map (cell_at a) [0..<n]) (MakeBuilder (snd f))) = a"
    using rebuild_column [of a] Cons.prems(1) t by simp
  moreover have "built_columns sch' (selected_cells cols [0..<n]) = cols"
    using Cons.prems unfolding sch by (intro Cons.IH) auto
  ultimately show ?case
    unfolding sch by (simp add: built_columns_def selected_cells_def)
qed

lemma scalar_supported: "scalar_type t \<Longrightarrow> supported t"
  by (auto simp: scalar_type_def supported_def)

lemma codec_round_trip_scalar:
  assumes "wf_record_batch rb" and "list_all (\<lambda>f. scalar_type (snd f)) (schema rb)"
    and "schema rb \<noteq> []" and "num_rows rb < 2 ^ 63"
  shows "serialize_then_deserialize rb [0..<num_rows rb] (schema rb) = Inr rb"
proof -
  have sup: "supported_schema (schema rb)"
    using assms(2) unfolding supported_schema_def by (auto simp: list_all_iff scalar_supported)
  have v: "list_all (\<lambda>x. x < num_rows rb) [0..<num_rows rb]" by (simp add: list_all_iff)
  have l: "length [0..<num_rows rb] < 2 ^ 63" using assms(4) by simp
  have "list_all scalar_type (map array_type (columns rb))"
    using assms(1,2) unfolding wf_record_batch_def by (metis list_all_iff list.pred_map comp_def list.pred_set)
  then have "list_all (\<lambda>a. scalar_type (array_type a) \<and> array_length a = num_rows rb) (columns rb)"
    using assms(1) unfolding wf_record_batch_def by (auto simp: list_all_iff)
  then have b: "built_columns (schema rb) (selected_cells (columns rb) [0..<num_rows rb]) = columns rb"
    using assms(1) unfolding wf_record_batch_def by (intro rebuild_columns) auto
  have "serialize_then_deserialize rb [0..<num_rows rb] (schema rb) = SelectRows rb [0..<num_rows rb]"
    using wire_path_eq_SelectRows [OF assms(1) v l] by simp
  also have "\<dots> = Inr \<lparr> schema = schema rb, num_rows = num_rows rb, columns = columns rb \<rparr>"
    using SelectRows_cells [OF assms(1) sup v] assms(3) b by simp
  finally show ?thesis by simp
qed

text \<open>
  Claim C1 fails on the code for list columns. \<^verbatim>\<open>deserialize_list_items\<close> (and
  \<^verbatim>\<open>select_list_items\<close>) append a row's values to the value builder and only then call
  \<^verbatim>\<open>Append(true)\<close>, which opens a slot at the value builder's current length: every list
  comes out as the list of the row after it, and the last row as the empty list. For the
  batch of scenario S5 the serializer writes the count 1, the length 3 and the values
  7, 8, 9; the deserializer returns a batch whose single row holds the empty list (offsets
  3, 3 over the values 7, 8, 9), where the input row holds 7, 8, 9. For batches with at
  least one column and no list column the round trip is the identity
  (\<open>codec_round_trip_scalar\<close>).
\<close>

theorem list_column_round_trip_fails:
  "wf_record_batch list_batch
   \<and> SerializeSelectedRows [] list_batch [0]
       = Inr [1, 0, 0, 0, 0, 0, 0, 0, 3, 0, 0, 0, 0, 0, 0, 0, 7, 0, 0, 0, 8, 0, 0, 0, 9, 0, 0, 0]
   \<and> serialize_then_deserialize list_batch [0] (schema list_batch)
       = Inr \<lparr> schema = [(''c'', large_list int32)], num_rows = 1,
                columns = [LargeListArray [3, 3] (NumericArray int32_t [7, 8, 9])] \<rparr>
   \<and> cells (LargeListArray [3, 3] (NumericArray int32_t [7, 8, 9])) = [ListCell int32_t []]
   \<and> map cells (columns list_batch) = [[ListCell int32_t [7, 8, 9]]]"
proof -
  have sup: "supported_schema (schema list_batch)"
    by (simp add: supported_schema_def list_batch_def supported_def)
  have v: "list_all (\<lambda>x. x < num_rows list_batch) [0]" by (simp add: list_batch_def)
  have w: "wire_message 1 [[ListCell int32_t [7, 8, 9]]]
             = [1, 0, 0, 0, 0, 0, 0, 0, 3, 0, 0, 0, 0, 0, 0, 0, 7, 0, 0, 0, 8, 0, 0, 0, 9, 0, 0, 0]"
    by code_simp
  have s: "SerializeSelectedRows [] list_batch [0]
       = Inr [1, 0, 0, 0, 0, 0, 0, 0, 3, 0, 0, 0, 0, 0, 0, 0, 7, 0, 0, 0, 8, 0, 0, 0, 9, 0, 0, 0]"
    using SerializeSelectedRows_cells [OF wf_list_batch sup v, of "[]"] w
    by (simp add: selected_cells_def list_batch_def)
  have "SelectRows list_batch [0]
       = Inr \<lparr> schema = [(''c'', large_list int32)], num_rows = 1,
                columns = [LargeListArray [3, 3] (NumericArray int32_t [7, 8, 9])] \<rparr>"
    by (simp add: SelectRows_def RecordBatchBuilder_Make_def list_batch_def
        SelectItems_def select_typed_items_all_def Flush_def)
  then have r: "serialize_then_deserialize list_batch [0] (schema list_batch)
       = Inr \<lparr> schema = [(''c'', large_list int32)], num_rows = 1,
                columns = [LargeListArray [3, 3] (NumericArray int32_t [7, 8, 9])] \<rparr>"
    using wire_path_eq_SelectRows [OF wf_list_batch v] by simp
  show ?thesis
    using s r wf_list_batch by (simp add: cells_def list_batch_def)
qed

text \<open>
  Claim C8. A serialized message is, byte for byte, the wire message of the specification:
  the number of offsets as an 8-byte little-endian count, then for each column in order the
  encodings of the selected cells. The deserializer, given the wire message of \<open>n\<close> cells
  per field of a schema (followed by any bytes \<open>rest\<close>), reads the count, makes the
  builders of the schema, consumes exactly the message and leaves \<open>rest\<close>, and flushes:
  each column of the batch is what the field's fresh builder finishes to after the cells
  were appended in order.
\<close>

theorem wire_message_format:
  assumes "wf_record_batch rb" and "supported_schema (schema rb)"
    and "list_all (\<lambda>x. x < num_rows rb) offset"
    and "list_all2 (\<lambda>cs t. supported t \<and> list_all (cell_ok t) cs \<and> length cs = n) css (map snd sch)"
    and "n < 2 ^ 63"
  shows "SerializeSelectedRows arc rb offset
           = Inr (arc @ wire_message (length offset) (selected_cells (columns rb) offset))
       \<and> DeserializeSelectedRows (wire_message n css @ rest) sch
           = Inr (rest, \<lparr> schema = sch, num_rows = (if sch = [] then 0 else n),
                           columns = built_columns sch css \<rparr>)"
  using SerializeSelectedRows_cells [OF assms(1,2,3)] DeserializeSelectedRows_cells [OF assms(4,5)]
  by simp

lemma example_wire:
  "wire_message 3 example_cells =
     [3, 0, 0, 0, 0, 0, 0, 0,
      20, 0, 0, 0, 0, 0, 0, 0, 10, 0, 0, 0, 0, 0, 0, 0, 20, 0, 0, 0, 0, 0, 0, 0,
      2, 0, 0, 0, 0, 0, 0, 0, 98, 99, 1, 0, 0, 0, 0, 0, 0, 0, 97, 2, 0, 0, 0, 0, 0, 0, 0, 98, 99,
      2, 0, 0, 0, 0, 0, 0, 0, 10, 0, 0, 0, 11, 0, 0, 0,
      3, 0, 0, 0, 0, 0, 0, 0, 7, 0, 0, 0, 8, 0, 0, 0, 9, 0, 0, 0,
      2, 0, 0, 0, 0, 0, 0, 0, 10, 0, 0, 0, 11, 0, 0, 0]"
  unfolding example_cells_def by code_simp

theorem wire_message_format_witness:
  "wf_record_batch example_batch \<and> supported_schema (schema example_batch)
   \<and> list_all (\<lambda>x. x < num_rows example_batch) [1, 0, 1]
   \<and> list_all2 (\<lambda>cs t. supported t \<and> list_all (cell_ok t) cs \<and> length cs = 3)
         example_cells (map snd example_schema)
   \<and> (3 :: nat) < 2 ^ 63
   \<and> SerializeSelectedRows [] example_batch [1, 0, 1] = Inr (wire_message 3 example_cells)
   \<and> DeserializeSelectedRows (wire_message 3 example_cells) example_schema
       = Inr ([], \<lparr> schema = example_schema, num_rows = 3,
            columns = [NumericArray int64_t [20, 10, 20],
                  LargeStringArray [[98, 99], [97], [98, 99]],
                  NullArray 3,
                  LargeListArray [2, 5, 7, 7] (NumericArray int32_t [10, 11, 7, 8, 9, 10, 11])] \<rparr>)"
proof -
  have w: "wf_record_batch example_batch" by (rule wf_example_batch)
  have s: "supported_schema (schema example_batch)"
    using supported_example by (simp add: example_batch_def)
  have v: "list_all (\<lambda>x. x < num_rows example_batch) [1, 0, 1]"
    by (simp add: example_batch_def)
  have c: "list_all2 (\<lambda>cs t. supported t \<and> list_all (cell_ok t) cs \<and> length cs = 3)
         example_cells (map snd example_schema)"
    by (simp add: example_cells_def example_schema_def supported_def)
  have n: "(3 :: nat) < 2 ^ 63" by simp
  have sel: "selected_cells (columns example_batch) [1, 0, 1] = example_cells"
    by (simp add: selected_cells_def example_batch_def example_cells_def)
  have b: "built_columns example_schema example_cells
            = [NumericArray int64_t [20, 10, 20],
                  LargeStringArray [[98, 99], [97], [98, 99]],
                  NullArray 3,
                  LargeListArray [2, 5, 7, 7] (NumericArray int32_t [10, 11, 7, 8, 9, 10, 11])]"
    by (simp add: built_columns_def example_schema_def example_cells_def)
  show ?thesis
    using wire_message_format [OF w s v c n, of "[]" "[]"] w s v c n sel b
    by (simp add: example_schema_def numeral_3_eq_3)
qed

subsection \<open>The routers\<close>

lemma vertex_scan_rows_eq:
  "list_all (\<lambda>r. r < array_length col \<and> P (cell_at col r) < length O') rows \<Longrightarrow>
   vertex_scan_rows P col rows O'
     = Inr (map (\<lambda>f. O' ! f @ filter (\<lambda>r. P (cell_at col r) = f) rows) [0..<length O'])"
proof (induction rows arbitrary: O')
  case Nil
  then show ?case by (simp add: map_nth)
next
  case (Cons r rows)
  let ?f = "P (cell_at col r)"
  let ?O1 = "O'[?f := O' ! ?f @ [r]]"
  have f: "?f < length O'" and r: "r < array_length col" using Cons.prems by simp_all
  have "list_all (\<lambda>x. x < array_length col \<and> P (cell_at col x) < length ?O1) rows"
    using Cons.prems by simp
  then have "vertex_scan_rows P col rows ?O1
     = Inr (map (\<lambda>g. ?O1 ! g @ filter (\<lambda>x. P (cell_at col x) = g) rows) [0..<length ?O1])"
    by (rule Cons.IH)
  moreover have "map (\<lambda>g. ?O1 ! g @ filter (\<lambda>x. P (cell_at col x) = g) rows) [0..<length ?O1]
       = map (\<lambda>g. O' ! g @ filter (\<lambda>x. P (cell_at col x) = g) (r # rows)) [0..<length O']"
    using f by (auto simp: nth_list_update)
  ultimately show ?case using f r by (simp add: push_back_def)
qed

lemma vertex_scan_rows_Inr:
  "vertex_scan_rows P col rows O' = Inr O'' \<Longrightarrow>
   list_all (\<lambda>r. r < array_length col \<and> P (cell_at col r) < length O') rows"
proof (induction rows arbitrary: O')
  case Nil
  then show ?case by simp
next
  case (Cons r rows)
  let ?f = "P (cell_at col r)"
  have r: "r < array_length col" using Cons.prems by (simp split: if_splits)
  have f: "?f < length O'"
    using Cons.prems r by (simp add: push_back_def split: if_splits)
  have "vertex_scan_rows P col rows (O'[?f := O' ! ?f @ [r]]) = Inr O''"
    using Cons.prems r f by (simp add: push_back_def)
  then have "list_all (\<lambda>x. x < array_length col \<and> P (cell_at col x) < length (O'[?f := O' ! ?f @ [r]])) rows"
    by (rule Cons.IH)
  then show ?case using r f by simp
qed

lemma edge_scan_rows_eq:
  "list_all (\<lambda>r. r < length src \<and> r < length dst \<and> G (src ! r) < length O' \<and> G (dst ! r) < length O') rows \<Longrightarrow>
   edge_scan_rows G src dst rows O'
     = Inr (map (\<lambda>f. O' ! f @ filter (\<lambda>r. G (src ! r) = f \<or> G (dst ! r) = f) rows) [0..<length O'])"
proof (induction rows arbitrary: O')
  case Nil
  then show ?case by (simp add: map_nth)
next
  case (Cons r rows)
  let ?s = "G (src ! r)"
  let ?d = "G (dst ! r)"
  let ?O1 = "O'[?s := O' ! ?s @ [r]]"
  let ?O2 = "?O1[?d := ?O1 ! ?d @ [r]]"
  have s: "?s < length O'" and d: "?d < length O'" and r: "r < length src" "r < length dst"
    using Cons.prems by simp_all
  show ?case
  proof (cases "?s = ?d")
    case True
    have "list_all (\<lambda>x. x < length src \<and> x < length dst \<and> G (src ! x) < length ?O1 \<and> G (dst ! x) < length ?O1) rows"
      using Cons.prems by simp
    then have "edge_scan_rows G src dst rows ?O1
       = Inr (map (\<lambda>f. ?O1 ! f @ filter (\<lambda>x. G (src ! x) = f \<or> G (dst ! x) = f) rows) [0..<length ?O1])"
      by (rule Cons.IH)
    moreover have "map (\<lambda>f. ?O1 ! f @ filter (\<lambda>x. G (src ! x) = f \<or> G (dst ! x) = f) rows) [0..<length ?O1]
       = map (\<lambda>f. O' ! f @ filter (\<lambda>x. G (src ! x) = f \<or> G (dst ! x) = f) (r # rows)) [0..<length O']"
      using s True by (auto simp: nth_list_update)
    ultimately show ?thesis using s r True by (simp add: push_back_def Let_def)
  next
    case False
    have "list_all (\<lambda>x. x < length src \<and> x < length dst \<and> G (src ! x) < length ?O2 \<and> G (dst ! x) < length ?O2) rows"
      using Cons.prems by simp
    then have "edge_scan_rows G src dst rows ?O2
       = Inr (map (\<lambda>f. ?O2 ! f @ filter (\<lambda>x. G (src ! x) = f \<or> G (dst ! x) = f) rows) [0..<length ?O2])"
      by (rule Cons.IH)
    moreover have "map (\<lambda>f. ?O2 ! f @ filter (\<lambda>x. G (src ! x) = f \<or> G (dst ! x) = f) rows) [0..<length ?O2]
       = map (\<lambda>f. O' ! f @ filter (\<lambda>x. G (src ! x) = f \<or> G (dst ! x) = f) (r # rows)) [0..<length O']"
      using s d False by (auto simp: nth_list_update)
    ultimately show ?thesis using s d r False by (simp add: push_back_def Let_def)
  qed
qed

lemma edge_scan_rows_Inr:
  "edge_scan_rows G src dst rows O' = Inr O'' \<Longrightarrow>
   list_all (\<lambda>r. r < length src \<and> r < length dst \<and> G (src ! r) < length O' \<and> G (dst ! r) < length O') rows"
proof (induction rows arbitrary: O')
  case Nil
  then show ?case by simp
next
  case (Cons r rows)
  let ?s = "G (src ! r)"
  let ?d = "G (dst ! r)"
  let ?O1 = "O'[?s := O' ! ?s @ [r]]"
  let ?O2 = "?O1[?d := ?O1 ! ?d @ [r]]"
  have r: "r < length src \<and> r < length dst" using Cons.prems by (simp split: if_splits)
  have s: "?s < length O'"
    using Cons.prems r by (simp add: push_back_def Let_def split: if_splits)
  show ?case
  proof (cases "?s = ?d")
    case True
    then have "edge_scan_rows G src dst rows ?O1 = Inr O''"
      using Cons.prems r s by (simp add: push_back_def Let_def)
    then have "list_all (\<lambda>x. x < length src \<and> x < length dst \<and> G (src ! x) < length ?O1 \<and> G (dst ! x) < length ?O1) rows"
      by (rule Cons.IH)
    then show ?thesis using r s True by simp
  next
    case False
    have d: "?d < length O'"
      using Cons.prems r s False by (simp add: push_back_def Let_def split: if_splits)
    then have "edge_scan_rows G src dst rows ?O2 = Inr O''"
      using Cons.prems r s False by (simp add: push_back_def Let_def)
    then have "list_all (\<lambda>x. x < length src \<and> x < length dst \<and> G (src ! x) < length ?O2 \<and> G (dst ! x) < length ?O2) rows"
      by (rule Cons.IH)
    then show ?thesis using r s d by simp
  qed
qed

lemma sorted_filter_upt: "sorted_wrt (<) (filter Q [0..<n])"
  by (simp add: sorted_wrt_filter)

lemma count_filter_upt:
  "count_list (filter Q [0..<n]) r = (if r < n \<and> Q r then 1 else 0)"
  by (induction n) auto

lemma ring_mod:
  assumes "w < W" and "k < W - 1"
  shows "(w + (1 + k)) mod W = (if k < W - Suc w then Suc w + k else k - (W - Suc w))"
proof (cases "k < W - Suc w")
  case True
  then show ?thesis by simp
next
  case False
  then have ge: "W \<le> w + (1 + k)" by simp
  have "(w + (1 + k)) mod W = (w + (1 + k) - W) mod W"
    using ge by (simp add: le_mod_geq)
  also have "\<dots> = w + (1 + k) - W"
    using assms by simp
  finally show ?thesis using False assms by simp
qed

lemma ring_walk:
  assumes "w < W"
  shows "map (\<lambda>i. (w + i) mod W) [1..<W] = [Suc w..<W] @ [0..<w]"
proof (rule nth_equalityI)
  show "length (map (\<lambda>i. (w + i) mod W) [1..<W]) = length ([Suc w..<W] @ [0..<w])"
    using assms by simp
next
  fix k
  assume "k < length (map (\<lambda>i. (w + i) mod W) [1..<W])"
  then have k: "k < W - 1" by simp
  have "map (\<lambda>i. (w + i) mod W) [1..<W] ! k = (w + (1 + k)) mod W"
    using k by simp
  also have "\<dots> = (if k < W - Suc w then Suc w + k else k - (W - Suc w))"
    by (rule ring_mod [OF assms k])
  also have "\<dots> = ([Suc w..<W] @ [0..<w]) ! k"
    using k assms by (auto simp: nth_append)
  finally show "map (\<lambda>i. (w + i) mod W) [1..<W] ! k = ([Suc w..<W] @ [0..<w]) ! k" .
qed

lemma filter_eq_upt:
  "filter (\<lambda>u. u = v) [a..<b] = (if a \<le> v \<and> v < b then [v] else [])"
  by (induction b) auto

lemma ring_filter:
  assumes "w < W" and "v < W"
  shows "filter (\<lambda>u. u = v) (map (\<lambda>i. (w + i) mod W) [1..<W]) = (if v = w then [] else [v])"
  unfolding ring_walk [OF assms(1)] using assms by (auto simp: filter_eq_upt)

lemma wf_comm_W2F:
  "wf_comm comm \<Longrightarrow> u < worker_num comm \<Longrightarrow>
   WorkerToFrag comm u < fnum comm \<and> FragToWorker comm (WorkerToFrag comm u) = u"
  by (auto simp: wf_comm_def list_all_iff)

lemma remote_fids_filter:
  assumes "wf_comm comm" and "v < worker_num comm"
  shows "filter (\<lambda>f. FragToWorker comm f = v) (remote_fids comm)
           = (if v = worker_id comm then [] else [WorkerToFrag comm v])"
proof -
  let ?W = "worker_num comm"
  let ?w = "worker_id comm"
  let ?ring = "map (\<lambda>i. (?w + i) mod ?W) [1..<?W]"
  have w: "?w < ?W" using assms(1) by (simp add: wf_comm_def)
  have in_range: "\<forall>u \<in> set ?ring. u < ?W" using w by auto
  have "filter (\<lambda>f. FragToWorker comm f = v) (remote_fids comm)
          = map (WorkerToFrag comm) (filter (\<lambda>u. FragToWorker comm (WorkerToFrag comm u) = v) ?ring)"
    by (simp add: remote_fids_def filter_map comp_def)
  also have "filter (\<lambda>u. FragToWorker comm (WorkerToFrag comm u) = v) ?ring = filter (\<lambda>u. u = v) ?ring"
    using in_range wf_comm_W2F [OF assms(1)] by (intro filter_cong) auto
  also have "\<dots> = (if v = ?w then [] else [v])"
    by (rule ring_filter [OF w assms(2)])
  finally show ?thesis by simp
qed

lemma remote_fids_not_local:
  assumes "wf_comm comm"
  shows "fid comm \<notin> set (remote_fids comm)"
proof
  let ?w = "worker_id comm"
  assume a: "fid comm \<in> set (remote_fids comm)"
  have w: "?w < worker_num comm" using assms by (simp add: wf_comm_def)
  have "FragToWorker comm (fid comm) = ?w"
    using assms wf_comm_W2F [OF assms w] by (simp add: wf_comm_def)
  then have "fid comm \<in> set (filter (\<lambda>f. FragToWorker comm f = ?w) (remote_fids comm))"
    using a by simp
  then show False unfolding remote_fids_filter [OF assms w] by simp
qed

lemma vertex_scan_batch_Inr:
  assumes "vertex_scan_batch comm oid P b = Inr O'"
  shows "O' = vertex_lists P (hd (columns b)) (num_rows b) (fnum comm)"
proof -
  let ?col = "hd (columns b)"
  let ?O0 = "replicate (fnum comm) ([] :: nat list)"
  have s: "vertex_scan_rows P ?col [0..<num_rows b] ?O0 = Inr O'"
    using assms by (simp add: vertex_scan_batch_def Let_def split: if_splits)
  have "list_all (\<lambda>r. r < array_length ?col \<and> P (cell_at ?col r) < length ?O0) [0..<num_rows b]"
    by (rule vertex_scan_rows_Inr [OF s])
  then have "vertex_scan_rows P ?col [0..<num_rows b] ?O0
     = Inr (map (\<lambda>f. ?O0 ! f @ filter (\<lambda>r. P (cell_at ?col r) = f) [0..<num_rows b]) [0..<length ?O0])"
    by (rule vertex_scan_rows_eq)
  then show ?thesis using s by (simp add: vertex_lists_def)
qed


lemma edge_scan_batch_Inr:
  assumes "edge_scan_batch comm T G s d b = Inr O'"
  shows "\<exists>src dst. raw_values T (columns b ! s) = Inr src \<and> raw_values T (columns b ! d) = Inr dst
           \<and> O' = edge_lists G src dst (num_rows b) (fnum comm)"
proof -
  let ?O0 = "replicate (fnum comm) ([] :: nat list)"
  obtain src dst where src: "raw_values T (columns b ! s) = Inr src"
    and dst: "raw_values T (columns b ! d) = Inr dst"
    and sc: "edge_scan_rows G src dst [0..<num_rows b] ?O0 = Inr O'"
    using assms by (auto simp: edge_scan_batch_def Let_def split: if_splits sum.splits)
  have "list_all (\<lambda>r. r < length src \<and> r < length dst \<and> G (src ! r) < length ?O0 \<and> G (dst ! r) < length ?O0) [0..<num_rows b]"
    by (rule edge_scan_rows_Inr [OF sc])
  then have "edge_scan_rows G src dst [0..<num_rows b] ?O0
     = Inr (map (\<lambda>f. ?O0 ! f @ filter (\<lambda>r. G (src ! r) = f \<or> G (dst ! r) = f) [0..<num_rows b]) [0..<length ?O0])"
    by (rule edge_scan_rows_eq)
  then have "O' = edge_lists G src dst (num_rows b) (fnum comm)"
    using sc by (simp add: edge_lists_def)
  then show ?thesis using src dst by blast
qed

lemma edge_scan_batch_eq:
  assumes "s < length (columns b)" and "d < length (columns b)"
    and "raw_values T (columns b ! s) = Inr src" and "raw_values T (columns b ! d) = Inr dst"
    and "length src = num_rows b" and "length dst = num_rows b"
    and "list_all (\<lambda>r. G (src ! r) < fnum comm \<and> G (dst ! r) < fnum comm) [0..<num_rows b]"
  shows "edge_scan_batch comm T G s d b = Inr (edge_lists G src dst (num_rows b) (fnum comm))"
proof -
  let ?O0 = "replicate (fnum comm) ([] :: nat list)"
  have "list_all (\<lambda>r. r < length src \<and> r < length dst \<and> G (src ! r) < length ?O0 \<and> G (dst ! r) < length ?O0) [0..<num_rows b]"
    using assms(5,6,7) by (simp add: list_all_iff)
  then have "edge_scan_rows G src dst [0..<num_rows b] ?O0
     = Inr (map (\<lambda>f. ?O0 ! f @ filter (\<lambda>r. G (src ! r) = f \<or> G (dst ! r) = f) [0..<num_rows b]) [0..<length ?O0])"
    by (rule edge_scan_rows_eq)
  then show ?thesis using assms(1-4) by (simp add: edge_scan_batch_def edge_lists_def)
qed

lemma filtered_rows_ok:
  "sorted_wrt (<) (filter Q [0..<n]) \<and> (\<forall>x \<in> set (filter Q [0..<n]). x < n)"
  by (simp add: sorted_wrt_filter)

lemma wf_comm2: "wf_comm comm2"
  by (simp add: wf_comm_def comm2_def upt_conv_Cons)

lemma vertex_scan_example:
  "vertex_scan_batch comm2 int64 example_partitioner example_batch = Inr [[1], [0]]"
  by (simp add: vertex_scan_batch_def comm2_def example_batch_def example_partitioner_def
      push_back_def upt_conv_Cons numeral_2_eq_2)

lemma edge_scan_example:
  "edge_scan_batch comm2 uint64_t example_GetFid 0 1 edge_batch = Inr [[0, 1], [0]]"
  by (simp add: edge_scan_batch_def comm2_def edge_batch_def example_GetFid_def
      push_back_def upt_conv_Cons numeral_2_eq_2 Let_def)

text \<open>
  Claim C10. Whenever the scan of a batch completes, in the vertex router and in the edge
  router, the batch's vector has \<open>fnum\<close> offset lists, every list is strictly increasing
  (so no row index occurs twice in a list) and every index is below the batch's row count.
\<close>

theorem offset_lists_invariant:
  assumes "vertex_scan_batch comm oid P vb = Inr VO"
    and "edge_scan_batch comm T G s d eb = Inr EO"
  shows "length VO = fnum comm
       \<and> (\<forall>l \<in> set VO. sorted_wrt (<) l \<and> (\<forall>x \<in> set l. x < num_rows vb))
       \<and> length EO = fnum comm
       \<and> (\<forall>l \<in> set EO. sorted_wrt (<) l \<and> (\<forall>x \<in> set l. x < num_rows eb))"
proof -
  have v: "VO = vertex_lists P (hd (columns vb)) (num_rows vb) (fnum comm)"
    by (rule vertex_scan_batch_Inr [OF assms(1)])
  obtain src dst where e: "EO = edge_lists G src dst (num_rows eb) (fnum comm)"
    using edge_scan_batch_Inr [OF assms(2)] by blast
  show ?thesis
    unfolding v e vertex_lists_def edge_lists_def using filtered_rows_ok by auto
qed

theorem offset_lists_invariant_witness:
  "vertex_scan_batch comm2 int64 example_partitioner example_batch = Inr [[1], [0]]
   \<and> edge_scan_batch comm2 uint64_t example_GetFid 0 1 edge_batch = Inr [[0, 1], [0]]
   \<and> length [[1], [0 :: nat]] = fnum comm2
   \<and> sorted_wrt (<) [0, 1 :: nat] \<and> (1 :: nat) < num_rows edge_batch"
  using offset_lists_invariant [OF vertex_scan_example edge_scan_example]
    vertex_scan_example edge_scan_example
  by simp

text \<open>
  Claim C4. For a batch whose two designated columns hold vertex ids of \<^verbatim>\<open>VID_TYPE\<close> and an
  id parser that maps every id of the batch to a fragment below \<open>fnum\<close>, the edge scan
  completes; a row index occurs once in the list of the source's fragment, once in the list
  of the destination's fragment, and in no other list: twice in all when the two fragments
  differ, once when they are the same.
\<close>

theorem edge_rows_routed:
  assumes "s < length (columns b)" and "d < length (columns b)"
    and "raw_values T (columns b ! s) = Inr src" and "raw_values T (columns b ! d) = Inr dst"
    and "length src = num_rows b" and "length dst = num_rows b"
    and "list_all (\<lambda>r. G (src ! r) < fnum comm \<and> G (dst ! r) < fnum comm) [0..<num_rows b]"
  shows "\<exists>O'. edge_scan_batch comm T G s d b = Inr O' \<and> length O' = fnum comm
      \<and> (\<forall>r < num_rows b. \<forall>f < fnum comm.
            count_list (O' ! f) r = (if f = G (src ! r) \<or> f = G (dst ! r) then 1 else 0))"
proof -
  let ?O = "edge_lists G src dst (num_rows b) (fnum comm)"
  have run: "edge_scan_batch comm T G s d b = Inr ?O"
    by (rule edge_scan_batch_eq [OF assms])
  have len: "length ?O = fnum comm" by (simp add: edge_lists_def)
  have cnt: "count_list (?O ! f) r = (if f = G (src ! r) \<or> f = G (dst ! r) then 1 else 0)"
    if "r < num_rows b" and "f < fnum comm" for r f
    using that by (auto simp: edge_lists_def count_filter_upt)
  show ?thesis using run len cnt by blast
qed

theorem edge_rows_routed_witness:
  "(0 :: nat) < length (columns edge_batch) \<and> (1 :: nat) < length (columns edge_batch)
   \<and> raw_values uint64_t (columns edge_batch ! 0) = Inr [1, 5]
   \<and> raw_values uint64_t (columns edge_batch ! 1) = Inr [4294967298, 6]
   \<and> length [1, 5 :: nat] = num_rows edge_batch
   \<and> length [4294967298, 6 :: nat] = num_rows edge_batch
   \<and> list_all (\<lambda>r. example_GetFid ([1, 5] ! r) < fnum comm2
                    \<and> example_GetFid ([4294967298, 6] ! r) < fnum comm2) [0..<num_rows edge_batch]
   \<and> edge_scan_batch comm2 uint64_t example_GetFid 0 1 edge_batch = Inr [[0, 1], [0]]
   \<and> count_list ([[0, 1], [0 :: nat]] ! 1) 0 = 1 \<and> count_list ([[0, 1], [0 :: nat]] ! 1) 1 = 0
   \<and> count_list ([[0, 1], [0 :: nat]] ! 0) 1 = 1"
proof -
  have a: "(0 :: nat) < length (columns edge_batch)" and b: "(1 :: nat) < length (columns edge_batch)"
    by (simp_all add: edge_batch_def)
  have c: "raw_values uint64_t (columns edge_batch ! 0) = Inr [1, 5]"
    and d: "raw_values uint64_t (columns edge_batch ! 1) = Inr [4294967298, 6]"
    by (simp_all add: edge_batch_def)
  have e: "length [1, 5 :: nat] = num_rows edge_batch"
    and f: "length [4294967298, 6 :: nat] = num_rows edge_batch"
    by (simp_all add: edge_batch_def)
  have g: "list_all (\<lambda>r. example_GetFid ([1, 5] ! r) < fnum comm2
                    \<and> example_GetFid ([4294967298, 6] ! r) < fnum comm2) [0..<num_rows edge_batch]"
    by (simp add: edge_batch_def example_GetFid_def comm2_def upt_conv_Cons numeral_2_eq_2)
  obtain O' where run: "edge_scan_batch comm2 uint64_t example_GetFid 0 1 edge_batch = Inr O'"
    and cnt: "\<forall>r < num_rows edge_batch. \<forall>f < fnum comm2.
            count_list (O' ! f) r
              = (if f = example_GetFid ([1, 5] ! r) \<or> f = example_GetFid ([4294967298, 6] ! r)
                 then 1 else 0)"
    using edge_rows_routed [OF a b c d e f g] by blast
  have O': "O' = [[0, 1], [0]]" using run edge_scan_example by simp
  have n: "num_rows edge_batch = 2" "fnum comm2 = 2" by (simp_all add: edge_batch_def comm2_def)
  have "count_list (O' ! 1) 0 = 1"
    using cnt [rule_format, of 0 1] n by (simp add: example_GetFid_def)
  moreover have "count_list (O' ! 1) 1 = 0"
    using cnt [rule_format, of 1 1] n by (simp add: example_GetFid_def)
  moreover have "count_list (O' ! 0) 1 = 1"
    using cnt [rule_format, of 1 0] n by (simp add: example_GetFid_def)
  ultimately show ?thesis using a b c d e f g edge_scan_example unfolding O' by simp
qed

subsection \<open>The shuffle engine\<close>

lemma collect_length: "collect rs = Inr xs \<Longrightarrow> length xs = length rs"
  by (induction rs arbitrary: xs) (auto split: sum.splits)

lemma collect_nth: "collect rs = Inr xs \<Longrightarrow> i < length rs \<Longrightarrow> rs ! i = Inr (xs ! i)"
proof (induction rs arbitrary: xs i)
  case Nil
  then show ?case by simp
next
  case (Cons r rs)
  then show ?case by (cases i) (auto split: sum.splits)
qed

lemma serialize_for_fst:
  "serialize_for rb ol fids = Inr items \<Longrightarrow> map fst items = fids"
  by (induction fids arbitrary: items) (auto split: sum.splits if_splits)

lemma serialize_for_nth:
  "serialize_for rb ol fids = Inr items \<Longrightarrow> j < length fids \<Longrightarrow>
   fids ! j < length ol \<and> SerializeSelectedRows [] rb (ol ! (fids ! j)) = Inr (snd (items ! j))"
proof (induction fids arbitrary: items j)
  case Nil
  then show ?case by simp
next
  case (Cons f fids)
  then show ?case by (cases j) (auto split: sum.splits if_splits)
qed

lemma serialize_batches_fst:
  "serialize_batches comm rbs ols = Inr m \<Longrightarrow>
   map fst m = concat (replicate (length rbs) (remote_fids comm))"
proof (induction comm rbs ols arbitrary: m rule: serialize_batches.induct)
  case (1 comm offset_lists)
  then show ?case by simp
next
  case (2 comm cur_rb rbs)
  then show ?case by simp
next
  case (3 comm cur_rb rbs cur_offset_lists offset_lists)
  then show ?case by (auto split: sum.splits dest: serialize_for_fst)
qed

lemma serialize_for_items:
  "serialize_for rb ol fids = Inr items \<Longrightarrow>
   map (\<lambda>item. (fst item, Inr (snd item))) items
     = map (\<lambda>f. (f, SerializeSelectedRows [] rb (ol ! f))) fids"
  by (induction fids arbitrary: items) (auto split: sum.splits if_splits)

lemma serialize_batches_items:
  "serialize_batches comm rbs ols = Inr m \<Longrightarrow>
   map (\<lambda>item. (fst item, Inr (snd item))) m
     = concat (map2 (\<lambda>rb ol. map (\<lambda>f. (f, SerializeSelectedRows [] rb (ol ! f))) (remote_fids comm))
         rbs ols)"
proof (induction comm rbs ols arbitrary: m rule: serialize_batches.induct)
  case (1 comm offset_lists)
  then show ?case by simp
next
  case (2 comm cur_rb rbs)
  then show ?case by simp
next
  case (3 comm cur_rb rbs cur_offset_lists offset_lists)
  then show ?case by (auto split: sum.splits dest: serialize_for_items)
qed

lemma select_local_length:
  "select_local f rbs ols = Inr outs \<Longrightarrow> length outs = length rbs \<and> length rbs \<le> length ols"
proof (induction f rbs ols arbitrary: outs rule: select_local.induct)
  case (1 f offset_lists)
  then show ?case by simp
next
  case (2 f rb rbs)
  then show ?case by simp
next
  case (3 f rb rbs cur_offset_lists offset_lists)
  then show ?case by (auto split: sum.splits if_splits)
qed

lemma select_local_nth:
  "select_local f rbs ols = Inr outs \<Longrightarrow> i < length rbs \<Longrightarrow>
   f < length (ols ! i) \<and> SelectRows (rbs ! i) (ols ! i ! f) = Inr (outs ! i)"
proof (induction f rbs ols arbitrary: outs i rule: select_local.induct)
  case (1 f offset_lists)
  then show ?case by simp
next
  case (2 f rb rbs)
  then show ?case by simp
next
  case (3 f rb rbs cur_offset_lists offset_lists)
  then show ?case by (cases i) (auto split: sum.splits if_splits)
qed

lemma engine_parts:
  assumes "ShuffleTableByOffsetLists sch rbs ols comm tot incoming = Inr (msg_out, R)"
  obtains received local where
    "serialize_batches comm rbs ols = Inr msg_out"
    "receive_batches sch (tot - int (length rbs)) incoming = Inr received"
    "select_local (fid comm) rbs ols = Inr local"
    "R = received @ local"
  using assms
  by (auto simp: ShuffleTableByOffsetLists_def Let_def split: if_splits sum.splits)

lemma receive_batches_Inr:
  assumes "receive_batches sch n incoming = Inr received"
  shows "0 \<le> n \<and> nat n \<le> length incoming \<and> length received = nat n
       \<and> collect (map (deserialize_batch sch) (take (nat n) incoming)) = Inr received"
proof -
  have n: "0 \<le> n" and l: "n \<le> int (length incoming)"
    and c: "collect (map (deserialize_batch sch) (take (nat n) incoming)) = Inr received"
    using assms by (auto simp: receive_batches_def split: if_splits)
  have "length received = length (map (deserialize_batch sch) (take (nat n) incoming))"
    by (rule collect_length [OF c])
  then show ?thesis using n l c by simp
qed

lemma length_filter_concat_replicate:
  "length (filter Q (concat (replicate k xs))) = k * length (filter Q xs)"
  by (induction k) simp_all

lemma delivered_count:
  assumes "wf_comm comm" and "v < worker_num comm"
    and "serialize_batches comm rbs ols = Inr m"
  shows "length (delivered_to comm m v) = (if v = worker_id comm then 0 else length rbs)"
proof -
  have "length (delivered_to comm m v)
          = length (filter (\<lambda>f. FragToWorker comm f = v) (map fst m))"
    by (simp add: delivered_to_def filter_map comp_def)
  also have "\<dots> = length rbs * length (filter (\<lambda>f. FragToWorker comm f = v) (remote_fids comm))"
    unfolding serialize_batches_fst [OF assms(3)] by (rule length_filter_concat_replicate)
  also have "\<dots> = (if v = worker_id comm then 0 else length rbs)"
    unfolding remote_fids_filter [OF assms(1,2)] by simp
  finally show ?thesis .
qed

lemma sum_list_if_upt:
  "v < W \<Longrightarrow> (\<Sum>w\<leftarrow>[0..<W]. if v = w then 0 else (g w :: nat)) + g v = (\<Sum>w\<leftarrow>[0..<W]. g w)"
proof (induction W)
  case 0
  then show ?case by simp
next
  case (Suc W)
  show ?case
  proof (cases "v = W")
    case True
    have "(\<Sum>w\<leftarrow>[0..<W]. if v = w then 0 else g w) = (\<Sum>w\<leftarrow>[0..<W]. g w)"
      using True by (intro arg_cong [where f = sum_list] map_cong) auto
    then show ?thesis using True by simp
  next
    case False
    then have "v < W" using Suc.prems by simp
    then show ?thesis using Suc.IH False by simp
  qed
qed

lemma arrivals_count:
  assumes "v < W"
    and "list_all (\<lambda>w. wf_comm (comm_of w) \<and> worker_id (comm_of w) = w \<and> worker_num (comm_of w) = W
              \<and> serialize_batches (comm_of w) (batches_of w) (offsets_of w) = Inr (msg_out_of w))
           [0..<W]"
  shows "length (arrivals comm_of msg_out_of W v) + length (batches_of v)
           = (\<Sum>w\<leftarrow>[0..<W]. length (batches_of w))"
proof -
  have each: "length (delivered_to (comm_of w) (msg_out_of w) v)
                = (if v = w then 0 else length (batches_of w))" if "w < W" for w
  proof -
    have h: "wf_comm (comm_of w)" "worker_id (comm_of w) = w" "worker_num (comm_of w) = W"
      "serialize_batches (comm_of w) (batches_of w) (offsets_of w) = Inr (msg_out_of w)"
      using assms(2) that by (simp_all add: list_all_iff)
    show ?thesis
      using delivered_count [OF h(1) _ h(4), of v] assms(1) h(2,3) by simp
  qed
  have "length (arrivals comm_of msg_out_of W v)
          = (\<Sum>w\<leftarrow>[0..<W]. length (delivered_to (comm_of w) (msg_out_of w) v))"
    by (simp add: arrivals_def length_concat comp_def)
  also have "\<dots> = (\<Sum>w\<leftarrow>[0..<W]. if v = w then 0 else length (batches_of w))"
    using each by (intro arg_cong [where f = sum_list] map_cong) auto
  finally show ?thesis
    using sum_list_if_upt [OF assms(1), of "\<lambda>w. length (batches_of w)"] by simp
qed

lemma engine_output_props:
  assumes "ShuffleTableByOffsetLists sch rbs ols comm tot incoming = Inr (msg_out, R)"
    and "wf_comm comm"
  shows "0 \<le> tot - int (length rbs)
       \<and> length R = nat (tot - int (length rbs)) + length rbs
       \<and> collect (map (deserialize_batch sch) (take (nat (tot - int (length rbs))) incoming))
           = Inr (take (nat (tot - int (length rbs))) R)
       \<and> select_local (fid comm) rbs ols = Inr (drop (nat (tot - int (length rbs))) R)
       \<and> (\<forall>i < length rbs.
             SelectRows (rbs ! i) (ols ! i ! fid comm) = Inr (R ! (nat (tot - int (length rbs)) + i)))
       \<and> map fst msg_out = concat (replicate (length rbs) (remote_fids comm))
       \<and> fid comm \<notin> fst ` set msg_out"
proof -
  let ?N = "nat (tot - int (length rbs))"
  obtain received local where
    ser: "serialize_batches comm rbs ols = Inr msg_out"
    and rcv: "receive_batches sch (tot - int (length rbs)) incoming = Inr received"
    and sel: "select_local (fid comm) rbs ols = Inr local"
    and R: "R = received @ local"
    using assms(1) by (rule engine_parts)
  have r: "0 \<le> tot - int (length rbs)" "length received = ?N"
    "collect (map (deserialize_batch sch) (take ?N incoming)) = Inr received"
    using receive_batches_Inr [OF rcv] by simp_all
  have l: "length local = length rbs" using select_local_length [OF sel] by simp
  have nth: "SelectRows (rbs ! i) (ols ! i ! fid comm) = Inr (R ! (?N + i))" if "i < length rbs" for i
    using select_local_nth [OF sel that] r(2) unfolding R by (simp add: nth_append)
  have fsts: "map fst msg_out = concat (replicate (length rbs) (remote_fids comm))"
    by (rule serialize_batches_fst [OF ser])
  have "set (map fst msg_out) \<subseteq> set (remote_fids comm)"
    unfolding fsts by auto
  then have nl: "fid comm \<notin> fst ` set msg_out"
    using remote_fids_not_local [OF assms(2)] by auto
  show ?thesis
    using r l nth fsts nl sel unfolding R by simp
qed

lemma collect_map_Inr:
  "\<forall>x \<in> set xs. \<exists>y. f x = Inr y \<Longrightarrow> \<exists>ys. collect (map f xs) = Inr ys"
  by (induction xs) auto

lemma scan_batches_Inr:
  assumes "0 < threads" and "scan_batches threads scan rbs = Inr ols"
  shows "length ols = length rbs \<and> (\<forall>i < length rbs. scan (rbs ! i) = Inr (ols ! i))"
proof -
  have c: "collect (map scan rbs) = Inr ols"
    using assms by (simp add: scan_batches_def split: if_splits)
  have "length ols = length rbs" using collect_length [OF c] by simp
  moreover have "scan (rbs ! i) = Inr (ols ! i)" if "i < length rbs" for i
    using collect_nth [OF c, of i] that by simp
  ultimately show ?thesis by simp
qed

lemma peer_message_deserializes:
  assumes "wf_record_batch rb" and "supported_schema (schema rb)"
    and "list_all (\<lambda>x. x < num_rows rb) offset" and "length offset < 2 ^ 63"
  shows "\<exists>arc out. SerializeSelectedRows [] rb offset = Inr arc
           \<and> deserialize_batch (schema rb) arc = Inr out \<and> SelectRows rb offset = Inr out"
proof -
  obtain out where out: "SelectRows rb offset = Inr out"
    using wire_path_eq_SelectRows [OF assms(1,3,4)] assms(2) by blast
  have std: "serialize_then_deserialize rb offset (schema rb) = Inr out"
    using wire_path_eq_SelectRows [OF assms(1,3,4)] out by simp
  then obtain arc where arc: "SerializeSelectedRows [] rb offset = Inr arc"
    by (auto simp: serialize_then_deserialize_def split: sum.splits)
  then obtain rest where "DeserializeSelectedRows arc (schema rb) = Inr (rest, out)"
    using std by (auto simp: serialize_then_deserialize_def split: sum.splits prod.splits)
  then have "deserialize_batch (schema rb) arc = Inr out"
    by (simp add: deserialize_batch_def)
  then show ?thesis using arc out by blast
qed

lemma serialize_for_completes:
  assumes "wf_record_batch rb" and "supported_schema (schema rb)"
    and "list_all (\<lambda>f. f < length ol \<and> list_all (\<lambda>x. x < num_rows rb) (ol ! f)
                       \<and> length (ol ! f) < 2 ^ 63) fids"
  shows "\<exists>items. serialize_for rb ol fids = Inr items"
  using assms(3)
proof (induction fids)
  case Nil
  then show ?case by simp
next
  case (Cons f fids)
  have "list_all (\<lambda>x. x < num_rows rb) (ol ! f)" and "length (ol ! f) < 2 ^ 63" and "f < length ol"
    using Cons.prems by simp_all
  then obtain arc where "SerializeSelectedRows [] rb (ol ! f) = Inr arc"
    using peer_message_deserializes [OF assms(1,2)] by blast
  moreover obtain items where "serialize_for rb ol fids = Inr items"
    using Cons by auto
  ultimately show ?case using \<open>f < length ol\<close> by simp
qed

lemma serialize_batches_completes:
  "list_all2 (routable comm) rbs ols \<Longrightarrow> \<exists>m. serialize_batches comm rbs ols = Inr m"
proof (induction rbs ols rule: list_all2_induct)
  case Nil
  then show ?case by simp
next
  case (Cons rb rbs ol ols)
  obtain items where "serialize_for rb ol (remote_fids comm) = Inr items"
    using serialize_for_completes [of rb ol "remote_fids comm"] Cons.hyps(1)
    by (auto simp: routable_def)
  then show ?case using Cons.IH by auto
qed

lemma select_local_completes:
  "list_all2 (routable comm) rbs ols \<Longrightarrow> \<exists>outs. select_local (fid comm) rbs ols = Inr outs"
proof (induction rbs ols rule: list_all2_induct)
  case Nil
  then show ?case by simp
next
  case (Cons rb rbs ol ols)
  have r: "wf_record_batch rb" "supported_schema (schema rb)" "fid comm < length ol"
    "list_all (\<lambda>x. x < num_rows rb) (ol ! fid comm)" "length (ol ! fid comm) < 2 ^ 63"
    using Cons.hyps(1) by (simp_all add: routable_def)
  obtain out where "SelectRows rb (ol ! fid comm) = Inr out"
    using peer_message_deserializes [OF r(1,2,4,5)] by blast
  then show ?case using Cons.IH r(3) by auto
qed

lemma engine_completes:
  assumes "worker_num comm \<noteq> 0" and "list_all2 (routable comm) rbs ols"
    and "0 \<le> tot - int (length rbs)" and "tot - int (length rbs) \<le> int (length incoming)"
    and "\<forall>arc \<in> set (take (nat (tot - int (length rbs))) incoming).
           \<exists>out. deserialize_batch sch arc = Inr out"
  shows "\<exists>msg_out R. ShuffleTableByOffsetLists sch rbs ols comm tot incoming = Inr (msg_out, R)"
proof -
  obtain m where m: "serialize_batches comm rbs ols = Inr m"
    using serialize_batches_completes [OF assms(2)] by blast
  obtain outs where o: "select_local (fid comm) rbs ols = Inr outs"
    using select_local_completes [OF assms(2)] by blast
  obtain received where
    "collect (map (deserialize_batch sch) (take (nat (tot - int (length rbs))) incoming)) = Inr received"
    using collect_map_Inr [OF assms(5)] by blast
  then have r: "receive_batches sch (tot - int (length rbs)) incoming = Inr received"
    using assms(3,4) by (simp add: receive_batches_def)
  show ?thesis
    using assms(1) m o r by (simp add: ShuffleTableByOffsetLists_def)
qed

lemma engine_example:
  "ShuffleTableByOffsetLists [(''id'', int64)] [id_batch] [[[1], [0]]] comm2 2
     [[1, 0, 0, 0, 0, 0, 0, 0, 30, 0, 0, 0, 0, 0, 0, 0]]
   = Inr ([(1, [1, 0, 0, 0, 0, 0, 0, 0, 10, 0, 0, 0, 0, 0, 0, 0])],
          [\<lparr> schema = [(''id'', int64)], num_rows = 1, columns = [NumericArray int64_t [30]] \<rparr>,
           \<lparr> schema = [(''id'', int64)], num_rows = 1, columns = [NumericArray int64_t [20]] \<rparr>])"
  by code_simp

lemma remote_fids_comm2: "remote_fids comm2 = [1]"
  by (simp add: remote_fids_def comm2_def upt_conv_Cons numeral_2_eq_2)

lemma routable_example: "list_all2 (routable comm2) [id_batch] [[[1], [0]]]"
proof -
  have "fid comm2 = 0" by (simp add: comm2_def)
  then show ?thesis
    by (simp add: routable_def wf_record_batch_def id_batch_def supported_schema_def
        supported_def remote_fids_comm2)
qed

text \<open>
  Claim C6. On a worker whose communicator has the mappings inverse to each other, with
  routable batches, a count \<open>N_rx\<close> (the all-reduced total minus the local batch count)
  that is not negative, and at least \<open>N_rx\<close> arriving archives of which the first \<open>N_rx\<close>
  can be deserialized, the engine completes; the output vector has \<open>N_rx\<close> entries followed
  by one per local batch; the first \<open>N_rx\<close> entries are the batches deserialized from the
  first \<open>N_rx\<close> archives received; the entries after them are, batch by batch, what
  \<open>SelectRows\<close> gives for the local fragment's offset list; and the outbound queue holds,
  for each batch, one item per remote fragment and no item for the local fragment, the
  archive of the item for fragment \<open>f\<close> being what \<open>SerializeSelectedRows\<close> writes for the
  batch and its offset list of \<open>f\<close>: the local fragment's list is serialized for no item.
  (That \<open>N_rx\<close> is the number of archives the peers address to the worker is
  \<open>arrivals_count\<close>, and that an archive a peer serialized from a routable batch can be
  deserialized is \<open>peer_message_deserializes\<close>.)
\<close>

theorem shuffle_engine_output:
  assumes "wf_comm comm" and "list_all2 (routable comm) rbs ols"
    and "0 \<le> tot - int (length rbs)" and "tot - int (length rbs) \<le> int (length incoming)"
    and "\<forall>arc \<in> set (take (nat (tot - int (length rbs))) incoming).
           \<exists>out. deserialize_batch sch arc = Inr out"
  shows "\<exists>msg_out R.
           ShuffleTableByOffsetLists sch rbs ols comm tot incoming = Inr (msg_out, R)
         \<and> length R = nat (tot - int (length rbs)) + length rbs
         \<and> collect (map (deserialize_batch sch) (take (nat (tot - int (length rbs))) incoming))
             = Inr (take (nat (tot - int (length rbs))) R)
         \<and> select_local (fid comm) rbs ols = Inr (drop (nat (tot - int (length rbs))) R)
         \<and> (\<forall>i < length rbs.
               SelectRows (rbs ! i) (ols ! i ! fid comm)
                 = Inr (R ! (nat (tot - int (length rbs)) + i)))
         \<and> map fst msg_out = concat (replicate (length rbs) (remote_fids comm))
         \<and> fid comm \<notin> fst ` set msg_out
         \<and> map (\<lambda>item. (fst item, Inr (snd item))) msg_out
             = concat (map2 (\<lambda>rb ol. map (\<lambda>f. (f, SerializeSelectedRows [] rb (ol ! f)))
                                       (remote_fids comm)) rbs ols)"
proof -
  have "worker_num comm \<noteq> 0" using assms(1) by (auto simp: wf_comm_def)
  then obtain msg_out R where
    run: "ShuffleTableByOffsetLists sch rbs ols comm tot incoming = Inr (msg_out, R)"
    using engine_completes [OF _ assms(2-5)] by blast
  have "serialize_batches comm rbs ols = Inr msg_out"
    using run by (rule engine_parts)
  then have items: "map (\<lambda>item. (fst item, Inr (snd item))) msg_out
             = concat (map2 (\<lambda>rb ol. map (\<lambda>f. (f, SerializeSelectedRows [] rb (ol ! f)))
                                       (remote_fids comm)) rbs ols)"
    by (rule serialize_batches_items)
  show ?thesis
    using engine_output_props [OF run assms(1)] run items by blast
qed

theorem shuffle_engine_output_witness:
  "wf_comm comm2 \<and> list_all2 (routable comm2) [id_batch] [[[1], [0]]]
   \<and> (0 :: int) \<le> 2 - int (length [id_batch])
   \<and> ShuffleTableByOffsetLists [(''id'', int64)] [id_batch] [[[1], [0]]] comm2 2
         [[1, 0, 0, 0, 0, 0, 0, 0, 30, 0, 0, 0, 0, 0, 0, 0]]
       = Inr ([(1, [1, 0, 0, 0, 0, 0, 0, 0, 10, 0, 0, 0, 0, 0, 0, 0])],
          [\<lparr> schema = [(''id'', int64)], num_rows = 1, columns = [NumericArray int64_t [30]] \<rparr>,
           \<lparr> schema = [(''id'', int64)], num_rows = 1, columns = [NumericArray int64_t [20]] \<rparr>])
   \<and> SelectRows id_batch [1]
       = Inr \<lparr> schema = [(''id'', int64)], num_rows = 1, columns = [NumericArray int64_t [20]] \<rparr>
   \<and> fid comm2 \<notin> fst ` set [(1 :: nat, [1, 0, 0, 0, 0, 0, 0, 0, 10, 0, 0, 0, 0, 0, 0, 0 :: byte])]
   \<and> SerializeSelectedRows [] id_batch [0] = Inr [1, 0, 0, 0, 0, 0, 0, 0, 10, 0, 0, 0, 0, 0, 0, 0]"
proof -
  let ?incoming = "[[1, 0, 0, 0, 0, 0, 0, 0, 30, 0, 0, 0, 0, 0, 0, 0 :: byte]]"
  let ?R = "[\<lparr> schema = [(''id'', int64)], num_rows = 1, columns = [NumericArray int64_t [30]] \<rparr>,
           \<lparr> schema = [(''id'', int64)], num_rows = 1, columns = [NumericArray int64_t [20]] \<rparr>]"
  have a: "(0 :: int) \<le> 2 - int (length [id_batch])" by simp
  have b: "2 - int (length [id_batch]) \<le> int (length ?incoming)" by simp
  have d: "deserialize_batch [(''id'', int64)] [1, 0, 0, 0, 0, 0, 0, 0, 30, 0, 0, 0, 0, 0, 0, 0]
             = Inr \<lparr> schema = [(''id'', int64)], num_rows = 1, columns = [NumericArray int64_t [30]] \<rparr>"
    by code_simp
  have c: "\<forall>arc \<in> set (take (nat (2 - int (length [id_batch]))) ?incoming).
             \<exists>out. deserialize_batch [(''id'', int64)] arc = Inr out"
    using d by simp
  obtain msg_out R where
    run: "ShuffleTableByOffsetLists [(''id'', int64)] [id_batch] [[[1], [0]]] comm2 2 ?incoming
            = Inr (msg_out, R)"
    and sel: "\<forall>i < length [id_batch].
               SelectRows ([id_batch] ! i) ([[[1], [0]]] ! i ! fid comm2)
                 = Inr (R ! (nat (2 - int (length [id_batch])) + i))"
    and loc: "fid comm2 \<notin> fst ` set msg_out"
    and items: "map (\<lambda>item. (fst item, Inr (snd item))) msg_out
             = concat (map2 (\<lambda>rb ol. map (\<lambda>f. (f, SerializeSelectedRows [] rb (ol ! f)))
                                       (remote_fids comm2)) [id_batch] [[[1], [0 :: nat]]])"
    using shuffle_engine_output [OF wf_comm2 routable_example a b c] by blast
  have mr: "msg_out = [(1, [1, 0, 0, 0, 0, 0, 0, 0, 10, 0, 0, 0, 0, 0, 0, 0])]" "R = ?R"
    using run engine_example by simp_all
  have s: "SelectRows id_batch [1]
       = Inr \<lparr> schema = [(''id'', int64)], num_rows = 1, columns = [NumericArray int64_t [20]] \<rparr>"
    using sel [rule_format, of 0] unfolding mr by (simp add: comm2_def)
  have p: "SerializeSelectedRows [] id_batch [0] = Inr [1, 0, 0, 0, 0, 0, 0, 0, 10, 0, 0, 0, 0, 0, 0, 0]"
    using items unfolding mr remote_fids_comm2 by simp
  show ?thesis
    using wf_comm2 routable_example a engine_example s loc p unfolding mr by blast
qed

subsection \<open>The schema barrier\<close>

lemma recv_schemas_eq:
  "\<forall>i \<in> set is. rd (recv ((worker_id comm + worker_num comm - i) mod worker_num comm))
        = Some (s ((worker_id comm + worker_num comm - i) mod worker_num comm)) \<Longrightarrow>
   recv_schemas rd sch comm recv is c
     = Inr (c \<and> (\<forall>i \<in> set is. s ((worker_id comm + worker_num comm - i) mod worker_num comm) = sch))"
  by (induction "is" arbitrary: c) (auto simp: Let_def)

lemma ring_source:
  assumes "x < W" and "v < W" and "x \<noteq> v"
  shows "\<exists>i \<in> set [1..<W]. (v + W - i) mod W = x"
proof (cases "x < v")
  case True
  have "(v + W - (v - x)) mod W = (W + x) mod W" using True by simp
  then have "(v + W - (v - x)) mod W = x" using assms(1) by simp
  moreover have "v - x \<in> set [1..<W]" using True assms(2) by auto
  ultimately show ?thesis by blast
next
  case False
  then have lt: "v < x" using assms(3) by simp
  have "(v + W - (v + W - x)) mod W = x mod W" using assms(1) by simp
  then have "(v + W - (v + W - x)) mod W = x" using assms(1) by simp
  moreover have "v + W - x \<in> set [1..<W]" using lt assms(1) by auto
  ultimately show ?thesis by blast
qed

lemma ring_source_range: "(v :: nat) < W \<Longrightarrow> (v + W - i) mod W < W"
  by simp

lemma flag_sum_zero:
  "(\<forall>w < W. ser (schema_of w) \<noteq> None) \<Longrightarrow> schema_flag_sum ser schema_of W = 0"
  by (induction W) (simp_all add: schema_flag_sum_def)

lemma flag_sum_nonzero:
  "w < W \<Longrightarrow> ser (schema_of w) = None \<Longrightarrow> schema_flag_sum ser schema_of W \<noteq> 0"
proof -
  assume w: "w < W" and n: "ser (schema_of w) = None"
  have nn: "0 \<le> schema_flag_sum ser schema_of W'" for W'
    by (induction W') (simp_all add: schema_flag_sum_def)
  have "0 < schema_flag_sum ser schema_of W" using w
  proof (induction W)
    case 0
    then show ?case by simp
  next
    case (Suc W)
    show ?case
    proof (cases "w = W")
      case True
      then show ?thesis using n nn [of W] by (simp add: schema_flag_sum_def)
    next
      case False
      then have "0 < schema_flag_sum ser schema_of W" using Suc by simp
      then show ?thesis by (simp add: schema_flag_sum_def)
    qed
  qed
  then show ?thesis by simp
qed

lemma barrier_detects:
  assumes ids: "\<forall>w < W. worker_id (comm_of w) = w \<and> worker_num (comm_of w) = W"
    and rt: "\<forall>w < W. \<forall>b. ser (schema_of w) = Some b \<longrightarrow> rd b = Some (schema_of w)"
    and ok: "\<forall>w < W. ser (schema_of w) \<noteq> None"
    and p: "p < W" and q: "q < W" and ne: "schema_of p \<noteq> schema_of q" and v: "v < W"
  shows "recv_schemas rd (schema_of v) (comm_of v) (schema_buffer_of ser schema_of) [1..<W] True
           = Inr False
       \<and> schema_barrier ser rd comm_of schema_of W v = Inl kInvalidOperationError"
proof -
  let ?recv = "schema_buffer_of ser schema_of"
  have cv: "worker_id (comm_of v) = v" "worker_num (comm_of v) = W" using ids v by simp_all
  have reads: "\<forall>i \<in> set [1..<W]. rd (?recv ((worker_id (comm_of v) + worker_num (comm_of v) - i) mod worker_num (comm_of v)))
        = Some (schema_of ((worker_id (comm_of v) + worker_num (comm_of v) - i) mod worker_num (comm_of v)))"
  proof
    fix i assume "i \<in> set [1..<W]"
    let ?src = "(v + W - i) mod W"
    have s: "?src < W" using v by (rule ring_source_range)
    obtain b where b: "ser (schema_of ?src) = Some b" using ok s by auto
    then have "rd b = Some (schema_of ?src)" using rt s by blast
    then show "rd (?recv ((worker_id (comm_of v) + worker_num (comm_of v) - i) mod worker_num (comm_of v)))
        = Some (schema_of ((worker_id (comm_of v) + worker_num (comm_of v) - i) mod worker_num (comm_of v)))"
      unfolding cv by (simp add: schema_buffer_of_def b)
  qed
  obtain x where x: "x < W" and xv: "schema_of x \<noteq> schema_of v"
    using p q ne by metis
  then have "x \<noteq> v" by auto
  then obtain i where i: "i \<in> set [1..<W]" and src: "(v + W - i) mod W = x"
    using ring_source [OF x v] by blast
  have "\<not> (\<forall>i \<in> set [1..<W]. schema_of ((worker_id (comm_of v) + worker_num (comm_of v) - i) mod worker_num (comm_of v)) = schema_of v)"
    unfolding cv using i src xv by auto
  then have acc: "recv_schemas rd (schema_of v) (comm_of v) ?recv [1..<W] True = Inr False"
    unfolding recv_schemas_eq [where s = schema_of, OF reads] by simp
  obtain b where b: "ser (schema_of v) = Some b" using ok v by auto
  have "schema_barrier ser rd comm_of schema_of W v = Inl kInvalidOperationError"
    using acc b flag_sum_zero [OF ok] cv
    by (simp add: schema_barrier_def SchemaConsistent_def)
  then show ?thesis using acc by simp
qed

lemma barrier_serialization_failure:
  assumes "w < W" and "ser (schema_of w) = None"
  shows "schema_barrier ser rd comm_of schema_of W v = Inl kArrowError"
  using flag_sum_nonzero [of w W ser schema_of, OF assms]
  by (simp add: schema_barrier_def SchemaConsistent_def split: option.splits)

text \<open>
  Claim C5, as the code has it. Let the workers \<open>0, ..., W - 1\<close> enter the barrier, each
  with its own id and the same worker count, and let a schema that was serialized be read
  back as itself. If two workers present unequal schemas, no worker returns success: when
  every worker's schema serializes (so that the exchange takes place), every worker's
  accumulator ends false and every worker returns \<open>kInvalidOperationError\<close>; when some
  worker's serialization fails, the all-reduced flag makes every worker return
  \<open>kArrowError\<close> before the exchange.
\<close>

theorem schema_barrier_rejects_mismatch:
  assumes "\<forall>w < W. worker_id (comm_of w) = w \<and> worker_num (comm_of w) = W"
    and "\<forall>w < W. \<forall>b. ser (schema_of w) = Some b \<longrightarrow> rd b = Some (schema_of w)"
    and "p < W" and "q < W" and "schema_of p \<noteq> schema_of q" and "v < W"
  shows "schema_barrier ser rd comm_of schema_of W v \<noteq> Inr ()
       \<and> ((\<forall>w < W. ser (schema_of w) \<noteq> None) \<longrightarrow>
            recv_schemas rd (schema_of v) (comm_of v) (schema_buffer_of ser schema_of) [1..<W] True
              = Inr False
            \<and> schema_barrier ser rd comm_of schema_of W v = Inl kInvalidOperationError)
       \<and> ((\<exists>w < W. ser (schema_of w) = None) \<longrightarrow>
            schema_barrier ser rd comm_of schema_of W v = Inl kArrowError)"
proof (cases "\<forall>w < W. ser (schema_of w) \<noteq> None")
  case True
  show ?thesis
    using barrier_detects [OF assms(1,2) True assms(3-6)] True by simp
next
  case False
  then obtain w where "w < W" and "ser (schema_of w) = None" by auto
  then have "schema_barrier ser rd comm_of schema_of W v = Inl kArrowError"
    by (rule barrier_serialization_failure)
  then show ?thesis using False by simp
qed

theorem schema_barrier_rejects_mismatch_witness:
  "s6_schema_of 0 \<noteq> s6_schema_of 1
   \<and> schema_barrier s6_SerializeSchema s6_ReadSchema s6_comm_of s6_schema_of 2 0
       = Inl kInvalidOperationError
   \<and> schema_barrier s6_SerializeSchema s6_ReadSchema s6_comm_of s6_schema_of 2 1
       = Inl kInvalidOperationError
   \<and> schema_barrier s6_failing_SerializeSchema s6_ReadSchema s6_comm_of s6_schema_of 2 0
       = Inl kArrowError"
proof -
  have ids: "\<forall>w < 2. worker_id (s6_comm_of w) = w \<and> worker_num (s6_comm_of w) = 2"
    by (simp add: s6_comm_of_def comm2_def)
  have rt: "\<forall>w < 2. \<forall>b. s6_SerializeSchema (s6_schema_of w) = Some b
              \<longrightarrow> s6_ReadSchema b = Some (s6_schema_of w)"
    by (auto simp: s6_SerializeSchema_def s6_ReadSchema_def s6_schema_of_def)
  have rt': "\<forall>w < 2. \<forall>b. s6_failing_SerializeSchema (s6_schema_of w) = Some b
              \<longrightarrow> s6_ReadSchema b = Some (s6_schema_of w)"
    by (auto simp: s6_failing_SerializeSchema_def s6_ReadSchema_def s6_schema_of_def)
  have ne: "s6_schema_of 0 \<noteq> s6_schema_of 1" by (simp add: s6_schema_of_def)
  have ok: "\<forall>w < 2. s6_SerializeSchema (s6_schema_of w) \<noteq> None"
    by (simp add: s6_SerializeSchema_def)
  have fails: "\<exists>w < 2. s6_failing_SerializeSchema (s6_schema_of w) = None"
    by (rule exI [of _ 1]) (simp add: s6_failing_SerializeSchema_def s6_schema_of_def)
  have p: "(0 :: nat) < 2" and q: "(1 :: nat) < 2" by simp_all
  have "schema_barrier s6_SerializeSchema s6_ReadSchema s6_comm_of s6_schema_of 2 0
       = Inl kInvalidOperationError"
    using schema_barrier_rejects_mismatch [OF ids rt p q ne p] ok by blast
  moreover have "schema_barrier s6_SerializeSchema s6_ReadSchema s6_comm_of s6_schema_of 2 1
       = Inl kInvalidOperationError"
    using schema_barrier_rejects_mismatch [OF ids rt p q ne q] ok by blast
  moreover have "schema_barrier s6_failing_SerializeSchema s6_ReadSchema s6_comm_of s6_schema_of 2 0
       = Inl kArrowError"
    using schema_barrier_rejects_mismatch [OF ids rt' p q ne p] fails by blast
  ultimately show ?thesis using ne by simp
qed

text \<open>
  Claim C5 as the specification words it fails when a schema cannot be serialized: of two
  workers with unequal schemas, the second failing to serialize its own, both return
  \<open>kArrowError\<close> and neither \<open>kInvalidOperationError\<close>; no schema is exchanged and no
  accumulator is computed.
\<close>

theorem schema_barrier_counterexample:
  "s6_schema_of 0 \<noteq> s6_schema_of 1
   \<and> s6_failing_SerializeSchema (s6_schema_of 0) = Some [0]
   \<and> s6_ReadSchema [0] = Some (s6_schema_of 0)
   \<and> s6_failing_SerializeSchema (s6_schema_of 1) = None
   \<and> schema_barrier s6_failing_SerializeSchema s6_ReadSchema s6_comm_of s6_schema_of 2 0
       = Inl kArrowError
   \<and> schema_barrier s6_failing_SerializeSchema s6_ReadSchema s6_comm_of s6_schema_of 2 1
       = Inl kArrowError
   \<and> schema_barrier s6_failing_SerializeSchema s6_ReadSchema s6_comm_of s6_schema_of 2 0
       \<noteq> Inl kInvalidOperationError
   \<and> schema_barrier s6_failing_SerializeSchema s6_ReadSchema s6_comm_of s6_schema_of 2 1
       \<noteq> Inl kInvalidOperationError"
  by (simp add: schema_barrier_def SchemaConsistent_def schema_flag_sum_def
      s6_failing_SerializeSchema_def s6_schema_of_def s6_ReadSchema_def
      upt_conv_Cons numeral_2_eq_2)


subsection \<open>The public operations\<close>

lemma Flush_schema: "Flush sch bs = Inr b \<Longrightarrow> schema b = sch"
  by (auto simp: Flush_def Let_def split: if_splits)

lemma SelectRows_schema: "SelectRows rb offset = Inr out \<Longrightarrow> schema out = schema rb"
  by (auto simp: SelectRows_def split: sum.splits dest: Flush_schema)

lemma deserialize_batch_schema: "deserialize_batch sch arc = Inr b \<Longrightarrow> schema b = sch"
  by (auto simp: deserialize_batch_def DeserializeSelectedRows_def Let_def
      split: sum.splits prod.splits dest: Flush_schema)

lemma collect_all:
  "collect rs = Inr xs \<Longrightarrow> \<forall>r \<in> set rs. \<forall>x. r = Inr x \<longrightarrow> Q x \<Longrightarrow> \<forall>x \<in> set xs. Q x"
  by (induction rs arbitrary: xs) (auto split: sum.splits)

lemma engine_schemas:
  assumes "ShuffleTableByOffsetLists sch rbs ols comm tot incoming = Inr (msg_out, R)"
    and "\<forall>b \<in> set rbs. schema b = sch"
  shows "\<forall>b \<in> set R. schema b = sch"
proof -
  obtain received local where
    rcv: "receive_batches sch (tot - int (length rbs)) incoming = Inr received"
    and sel: "select_local (fid comm) rbs ols = Inr local"
    and R: "R = received @ local"
    using assms(1) by (rule engine_parts)
  have c: "collect (map (deserialize_batch sch) (take (nat (tot - int (length rbs))) incoming)) = Inr received"
    using receive_batches_Inr [OF rcv] by simp
  have r: "\<forall>b \<in> set received. schema b = sch"
    by (rule collect_all [OF c]) (auto dest: deserialize_batch_schema)
  have l: "\<forall>b \<in> set local. schema b = sch"
  proof
    fix b assume "b \<in> set local"
    then obtain i where i: "i < length local" and b: "b = local ! i" by (auto simp: in_set_conv_nth)
    have il: "i < length rbs" using i select_local_length [OF sel] by simp
    have "SelectRows (rbs ! i) (ols ! i ! fid comm) = Inr (local ! i)"
      using select_local_nth [OF sel il] by simp
    then have "schema (local ! i) = schema (rbs ! i)" by (rule SelectRows_schema)
    then show "schema b = sch" using assms(2) il b by simp
  qed
  show ?thesis unfolding R using r l by auto
qed

lemma build_table_out_schema:
  assumes "build_table_out sch batches_in = Inr out" and "\<forall>b \<in> set batches_in. schema b = sch"
  shows "table_schema out = sch"
proof (cases "filter (\<lambda>e. num_rows e \<noteq> 0) batches_in = []")
  case True
  then show ?thesis using assms(1) by (auto simp: build_table_out_def EmptyTableBuilder_Build_def)
next
  case False
  let ?bs = "filter (\<lambda>e. num_rows e \<noteq> 0) batches_in"
  have "hd ?bs \<in> set batches_in" using False by (metis filter_is_subset hd_in_set subsetD)
  then have "schema (hd ?bs) = sch" using assms(2) by simp
  then show ?thesis
    using assms(1) False
    by (auto simp: build_table_out_def Let_def RecordBatchesToTable_def CombineChunks_def
        split: if_splits sum.splits)
qed

lemma build_table_out_empty:
  "\<forall>b \<in> set batches_in. num_rows b = 0 \<Longrightarrow>
   build_table_out sch batches_in = Inr \<lparr> table_schema = sch, table_batches = [] \<rparr>"
proof -
  assume "\<forall>b \<in> set batches_in. num_rows b = 0"
  then have "filter (\<lambda>e. num_rows e \<noteq> 0) batches_in = []" by (simp add: filter_empty_conv)
  then show ?thesis by (simp add: build_table_out_def EmptyTableBuilder_Build_def)
qed

lemma shuffle_scanned_schema:
  assumes "shuffle_scanned net comm scan table_in = Inr out"
    and "\<forall>b \<in> set (table_batches table_in). schema b = table_schema table_in"
  shows "table_schema out = table_schema table_in"
proof -
  obtain ols msg_out R where
    e: "ShuffleTableByOffsetLists (table_schema table_in) (table_batches table_in) ols comm
          (net_total_record_batches net) (net_incoming net) = Inr (msg_out, R)"
    and b: "build_table_out (table_schema table_in) R = Inr out"
    using assms(1)
    by (auto simp: shuffle_scanned_def TableToRecordBatches_def split: sum.splits prod.splits)
  show ?thesis
    by (rule build_table_out_schema [OF b engine_schemas [OF e assms(2)]])
qed

text \<open>
  Claim C9 fails on the code for tables with a list column, by the defect of claim C1:
  \<open>SelectRows\<close> (and the deserializer) open a list slot after the slot's values were
  appended. On a single worker, with every key in fragment 0, the vertex table of one row
  \<open>(10, [7, 8, 9])\<close> comes back as the row \<open>(10, [])\<close>, and likewise the edge table. The
  returned table does have the input's schema (\<open>shuffle_scanned_schema\<close>), and batches
  without rows give the empty table of that schema (\<open>build_table_out_empty\<close>).
\<close>

theorem shuffled_table_list_rows_lost:
  "ShufflePropertyVertexTable net1 comm1 int64 (\<lambda>key. 0) feature_table
     = Inr \<lparr> table_schema = [(''id'', int64), (''feat'', large_list int32)],
             table_batches =
               [\<lparr> schema = [(''id'', int64), (''feat'', large_list int32)], num_rows = 1,
                  columns = [NumericArray int64_t [10],
                             LargeListArray [0, 0] (NumericArray int32_t [])] \<rparr>] \<rparr>
   \<and> table_cells feature_table = [[NumericCell int64_t 10], [ListCell int32_t [7, 8, 9]]]
   \<and> table_cells \<lparr> table_schema = [(''id'', int64), (''feat'', large_list int32)],
             table_batches =
               [\<lparr> schema = [(''id'', int64), (''feat'', large_list int32)], num_rows = 1,
                  columns = [NumericArray int64_t [10],
                             LargeListArray [0, 0] (NumericArray int32_t [])] \<rparr>] \<rparr>
       = [[NumericCell int64_t 10], [ListCell int32_t []]]
   \<and> ShufflePropertyEdgeTable net1 comm1 uint64_t (\<lambda>gid. 0) 0 1 edge_feature_table
     = Inr \<lparr> table_schema = [(''src'', uint64), (''dst'', uint64), (''feat'', large_list int32)],
             table_batches =
               [\<lparr> schema = [(''src'', uint64), (''dst'', uint64), (''feat'', large_list int32)],
                  num_rows = 1,
                  columns = [NumericArray uint64_t [1], NumericArray uint64_t [2],
                             LargeListArray [0, 0] (NumericArray int32_t [])] \<rparr>] \<rparr>"
  by code_simp

subsection \<open>Rows across the workers\<close>




lemma values_array_numeric: "values_array (ConvertToArrowType T) vs = NumericArray T vs"
  by (cases T) simp_all


lemma array_of_cells_nulls:
  "array_of_cells null_type cs = NullArray (length cs)"
  by simp




















lemma shuffle_scanned_queue:
  assumes "SchemaConsistent (net_SerializeSchema net) (net_ReadSchema net) (table_schema t) comm
             (net_flag_sum net) (net_recv_schema net) = Inr ()"
    and "scan_batches (thread_num (net_hardware_concurrency net) (local_num comm)) scan
           (table_batches t) = Inr ols"
    and "ShuffleTableByOffsetLists (table_schema t) (table_batches t) ols comm tot incoming
           = Inr (msg_out, R)"
  shows "shuffle_scanned_msg_out net comm scan t = msg_out"
proof -
  have "serialize_batches comm (table_batches t) ols = Inr msg_out"
    using assms(3) by (rule engine_parts)
  then show ?thesis
    using assms(1,2) by (simp add: shuffle_scanned_msg_out_def TableToRecordBatches_def)
qed












































subsection \<open>Thread budget\<close>

lemma uint_add_sub_one:
  assumes "0 < uint (l :: 32 word)" and "uint (hw :: 32 word) + uint l - 1 < 2 ^ 31"
  shows "uint (hw + l - 1) = uint hw + uint l - 1"
proof -
  have "uint (hw + l - 1) = (uint hw + uint l - 1) mod 2 ^ 32"
    by (simp add: uint_word_ariths mod_diff_left_eq)
  moreover have "0 \<le> uint hw" by (rule uint_ge_0)
  moreover have "0 \<le> uint hw + uint l - 1" using assms(1) calculation(2) by linarith
  ultimately show ?thesis using assms(2) by simp
qed

lemma sint_eq_uint_small: "uint (w :: 32 word) < 2 ^ 31 \<Longrightarrow> sint w = uint w"
proof -
  assume a: "uint w < 2 ^ 31"
  have b: "- (2 ^ 31) \<le> uint w" by (rule order_trans [of _ 0]) simp_all
  have "signed_take_bit 31 (uint w) = uint w"
    by (rule signed_take_bit_int_eq_self [OF b a])
  then show ?thesis by (simp add: sint_uint)
qed

lemma int_div_le_self: "0 \<le> (a::int) \<Longrightarrow> 0 < b \<Longrightarrow> a div b \<le> a"
  using zdiv_mono2 [of a 1 b] by simp

lemma ceiling_div_bounds:
  fixes h l T :: int
  assumes lpos: "0 < l" and T: "T = (h + l - 1) div l"
  shows "h \<le> T * l \<and> (T - 1) * l < h"
proof -
  have dm: "(h + l - 1) div l * l + (h + l - 1) mod l = h + l - 1" by simp
  have m1: "(h + l - 1) mod l < l" using lpos by simp
  have m0: "0 \<le> (h + l - 1) mod l" using lpos by simp
  have a: "h \<le> (h + l - 1) div l * l" using dm m1 by linarith
  have b: "(h + l - 1) div l * l - l < h" using dm m0 by linarith
  show ?thesis using a b unfolding T by (simp add: algebra_simps)
qed

lemma thread_num_uint:
  assumes "0 < uint ln" and "uint hw + uint ln - 1 < 2 ^ 31"
  shows "thread_num hw ln = (uint hw + uint ln - 1) div uint ln"
proof -
  have q: "uint ((hw + ln - 1) div ln)
             = (uint hw + uint ln - 1) div uint ln"
    by (simp add: uint_div uint_add_sub_one [OF assms])
  have nn: "0 \<le> uint hw + uint ln - 1"
    using assms(1) uint_ge_0 [of hw] by linarith
  have "(uint hw + uint ln - 1) div uint ln \<le> uint hw + uint ln - 1"
    by (rule int_div_le_self [OF nn assms(1)])
  then have "uint ((hw + ln - 1) div ln) < 2 ^ 31"
    using q assms(2) by linarith
  then show ?thesis
    using q by (simp add: thread_num_def sint_eq_uint_small)
qed

lemma thread_num_positive:
  assumes "0 < uint ln" and "uint hw + uint ln - 1 < 2 ^ 31" and "0 < uint hw"
  shows "0 < thread_num hw ln"
proof -
  have T: "thread_num hw ln = (uint hw + uint ln - 1) div uint ln"
    by (rule thread_num_uint [OF assms(1,2)])
  have "uint hw \<le> thread_num hw ln * uint ln"
    using ceiling_div_bounds [OF assms(1) T] by simp
  then have "0 < thread_num hw ln * uint ln" using assms(3) by linarith
  then show ?thesis using assms(1) by (simp add: zero_less_mult_iff)
qed

text \<open>
  Claim C7, as the code has it. The budget is the ceiling of
  \<open>hardware_concurrency / local_num\<close> (stated as the two inequalities that
  characterise the ceiling), with no lower bound of 3; the half \<open>(T - 2) / 2\<close>
  goes to the \<^emph>\<open>deserializer\<close> pool and the remainder \<open>T - 2 - D\<close> to the
  \<^emph>\<open>serializer\<close> pool, each at least 1. The truncating division of C++ and the
  flooring division agree under the \<open>max\<close>.
\<close>

theorem thread_budget_and_pool_split:
  assumes "0 < uint ln" and "uint hw + uint ln - 1 < 2 ^ 31"
  shows "uint hw \<le> thread_num hw ln * uint ln
       \<and> (thread_num hw ln - 1) * uint ln < uint hw
       \<and> deserialize_thread_num (thread_num hw ln)
           = max 1 ((thread_num hw ln - 2) div 2)
       \<and> serialize_thread_num (thread_num hw ln)
           = max 1 (thread_num hw ln - 2 - max 1 ((thread_num hw ln - 2) div 2))"
proof -
  define T where "T = thread_num hw ln"
  define h where "h = uint hw"
  define l where "l = uint ln"
  have lpos: "0 < l" using assms(1) by (simp add: l_def)
  have T: "T = (h + l - 1) div l"
    unfolding T_def h_def l_def by (rule thread_num_uint [OF assms])
  have up: "h \<le> T * l" and lo: "(T - 1) * l < h"
    using ceiling_div_bounds [OF lpos T] by simp_all
  have d: "deserialize_thread_num T = max 1 ((T - 2) div 2)"
    by (simp add: deserialize_thread_num_def signed_divide_int_def sgn_if max_def) presburger
  have s: "serialize_thread_num T = max 1 (T - 2 - max 1 ((T - 2) div 2))"
    by (simp add: serialize_thread_num_def d)
  show ?thesis using up lo d s unfolding T_def h_def l_def by simp
qed

theorem thread_budget_and_pool_split_witness:
  "0 < uint (1 :: 32 word) \<and> uint (5 :: 32 word) + uint (1 :: 32 word) - 1 < 2 ^ 31
   \<and> thread_num 5 1 = 5 \<and> deserialize_thread_num (thread_num 5 1) = 1
   \<and> serialize_thread_num (thread_num 5 1) = 2"
  using thread_budget_and_pool_split [of 1 5]
  by (simp add: thread_num_def)

text \<open>
  Claim C7 as the specification words it fails twice: one hardware thread and one local
  worker give a budget of 1, below 3; and with a budget of 5 the serializer pool has 2
  workers and the deserializer pool 1, the reverse of \<open>S = max(1, (T-2)/2) = 1\<close> and
  \<open>D = max(1, T-2-S) = 2\<close>.
\<close>

theorem thread_budget_counterexample:
  "thread_num 1 1 = 1 \<and> \<not> 3 \<le> thread_num 1 1
   \<and> thread_num 5 1 = 5
   \<and> serialize_thread_num (thread_num 5 1) = 2
   \<and> serialize_thread_num (thread_num 5 1) \<noteq> max 1 ((thread_num 5 1 - 2) sdiv 2)
   \<and> deserialize_thread_num (thread_num 5 1) = 1
   \<and> deserialize_thread_num (thread_num 5 1)
        \<noteq> max 1 (thread_num 5 1 - 2 - max 1 ((thread_num 5 1 - 2) sdiv 2))"
  by (simp add: thread_num_def deserialize_thread_num_def serialize_thread_num_def
      signed_divide_int_def)

end
